theory Spec2Isabelle
  imports Complex_Main "HOL-Library.Char_ord" "HOL-Library.List_Lexorder"
begin

section \<open>Image capture readers of \<^verbatim>\<open>demos/common/cpp/utils/src/images_capture.cpp\<close>\<close>

text \<open>
  The file defines four readers behind the interface \<^verbatim>\<open>ImagesCapture\<close>
  (\<^verbatim>\<open>ImreadWrapper\<close>, \<^verbatim>\<open>DirReader\<close>, \<^verbatim>\<open>VideoCapWrapper\<close>,
  \<^verbatim>\<open>CameraCapWrapper\<close>) and the resolver \<^verbatim>\<open>openImagesCapture\<close>.
  Every class is a record of its fields, every constructor and every \<^verbatim>\<open>read()\<close> is a
  function that takes the object and returns the result together with the updated object,
  and every \<^verbatim>\<open>throw\<close> is an \<open>Inl\<close> value.

  The file system, the C++ standard library and OpenCV are outside the file. Their calls
  are the fields of a record \<open>world\<close> that every function takes as its first argument.
\<close>

subsection \<open>Values\<close>

text \<open>
  \<^verbatim>\<open>size_t\<close> is modelled by \<open>nat\<close>. No arithmetic of the file can wrap around: every
  \<^verbatim>\<open>++\<close> on a \<^verbatim>\<open>size_t\<close> is guarded by a strict comparison with another
  \<^verbatim>\<open>size_t\<close> (\<^verbatim>\<open>fileId < names.size()\<close>, \<^verbatim>\<open>nextImgId < readLengthLimit\<close>), or counts
  loop iterations bounded by \<^verbatim>\<open>names.size()\<close> (\<^verbatim>\<open>readImgs\<close>), and the only subtraction,
  \<^verbatim>\<open>readImgs - 1\<close>, follows \<^verbatim>\<open>++readImgs\<close>. The one place where the width shows is
  \<^verbatim>\<open>std::numeric_limits<size_t>::max()\<close>, here for a 64-bit \<^verbatim>\<open>size_t\<close>.
\<close>

type_synonym size_t = nat

definition SIZE_MAX :: size_t where
  "SIZE_MAX = 2 ^ 64 - 1"

text \<open>
  A \<^verbatim>\<open>cv::Mat\<close> is \<open>None\<close> when its \<^verbatim>\<open>data\<close> pointer is null (as for \<^verbatim>\<open>cv::Mat{}\<close>, for
  the result of a failed \<^verbatim>\<open>cv::imread\<close> and for the image of a failed
  \<^verbatim>\<open>VideoCapture::read\<close>), and \<open>Some d\<close> when it holds the pixels \<open>d\<close>.
  \<^verbatim>\<open>clone()\<close> keeps the value.
\<close>

type_synonym 'img Mat = "'img option"

record Size =
  width :: int
  height :: int

datatype cap_prop =
    CAP_PROP_POS_FRAMES
  | CAP_PROP_BUFFERSIZE
  | CAP_PROP_FRAME_WIDTH
  | CAP_PROP_FRAME_HEIGHT
  | CAP_PROP_AUTOFOCUS
  | CAP_PROP_FOURCC

datatype stoi_error = invalid_argument | out_of_range

text \<open>
  The two exception classes of the file, thrown by the constructors only, and the plain
  \<^verbatim>\<open>std::runtime_error\<close> thrown by \<^verbatim>\<open>openImagesCapture\<close> and by
  \<^verbatim>\<open>CameraCapWrapper::read\<close>.
\<close>

datatype ctor_error = InvalidInput string | OpenError string

datatype runtime_error = RuntimeError string

subsection \<open>The outside world\<close>

text \<open>
  \<^item> \<open>file_good p\<close>: \<^verbatim>\<open>std::ifstream file(p); file.good()\<close>.
  \<^item> \<open>imread p\<close>: \<^verbatim>\<open>cv::imread(p)\<close>.
  \<^item> \<open>opendir p\<close>: \<^verbatim>\<open>opendir(p)\<close> followed by the \<^verbatim>\<open>readdir\<close> loop; \<open>None\<close> when
    \<^verbatim>\<open>opendir\<close> returns null, otherwise every \<^verbatim>\<open>d_name\<close> in the order of enumeration
    (with \<^verbatim>\<open>.\<close> and \<^verbatim>\<open>..\<close>).
  \<^item> \<open>stoi s\<close>: \<^verbatim>\<open>std::stoi(s)\<close>, with its two exceptions.
  \<^item> \<open>cap_open_file p\<close>, \<open>cap_open_index i\<close>: \<^verbatim>\<open>cap.open(...)\<close> on a fresh
    \<^verbatim>\<open>cv::VideoCapture\<close>; \<open>None\<close> when it returns false, otherwise the opened session.
  \<^item> \<open>cap_set p v c\<close>: \<^verbatim>\<open>cap.set(p, v)\<close>, its result and the session afterwards.
  \<^item> \<open>cap_read c\<close>: \<^verbatim>\<open>cap.read(img)\<close>, the image and the session afterwards. OpenCV
    returns \<^verbatim>\<open>!img.empty()\<close>, so the result of the call is true exactly when the image
    is not \<open>None\<close>.
  The files do not change while a reader is in use: \<open>file_good\<close>, \<open>imread\<close> and
  \<open>opendir\<close> answer the same at every call. A capture session changes with every call on
  it, and the calls return it.
  A \<^verbatim>\<open>double\<close> argument is a \<open>real\<close>; the conversions of the file
  (\<^verbatim>\<open>static_cast<double>(initialImageId)\<close>, the implicit ones of \<^verbatim>\<open>int\<close> and
  \<^verbatim>\<open>bool\<close>) are the embeddings into the reals.
\<close>

record ('c, 'img) world =
  file_good :: "string \<Rightarrow> bool"
  imread :: "string \<Rightarrow> 'img Mat"
  opendir :: "string \<Rightarrow> string list option"
  stoi :: "string \<Rightarrow> stoi_error + int"
  cap_open_file :: "string \<Rightarrow> 'c option"
  cap_open_index :: "int \<Rightarrow> 'c option"
  cap_set :: "cap_prop \<Rightarrow> real \<Rightarrow> 'c \<Rightarrow> bool \<times> 'c"
  cap_read :: "'c \<Rightarrow> 'img Mat \<times> 'c"

subsection \<open>\<^verbatim>\<open>ImagesCapture\<close> and \<^verbatim>\<open>ImreadWrapper\<close>\<close>

text \<open>
  The base class holds \<^verbatim>\<open>loop\<close> (and \<^verbatim>\<open>readerMetrics\<close>, a latency counter defined
  outside this file, which no result depends on and which is left out).
\<close>

record ImagesCapture =
  loop :: bool

record 'img ImreadWrapper = ImagesCapture +
  img :: "'img Mat"
  canRead :: bool

definition ImreadWrapper_new ::
  "('c, 'img) world \<Rightarrow> string \<Rightarrow> bool \<Rightarrow> ctor_error + 'img ImreadWrapper" where
  "ImreadWrapper_new w inp lp =
     (if \<not> file_good w inp then Inl (InvalidInput (''Can't find the image by '' @ inp))
      else case imread w inp of
             None \<Rightarrow> Inl (OpenError (''Can't open the image from '' @ inp))
           | Some d \<Rightarrow> Inr \<lparr>loop = lp, img = Some d, canRead = True\<rparr>)"

definition ImreadWrapper_read :: "'img ImreadWrapper \<Rightarrow> 'img Mat \<times> 'img ImreadWrapper" where
  "ImreadWrapper_read r =
     (if loop r then (img r, r)
      else if canRead r then (img r, r\<lparr>canRead := False\<rparr>)
      else (None, r))"

subsection \<open>\<^verbatim>\<open>DirReader\<close>\<close>

record DirReader = ImagesCapture +
  names :: "string list"
  fileId :: size_t
  nextImgId :: size_t
  initialImageId :: size_t
  readLengthLimit :: size_t
  input :: string

text \<open>The path \<^verbatim>\<open>input + '/' + names[fileId]\<close>.\<close>

definition DirReader_path :: "DirReader \<Rightarrow> string" where
  "DirReader_path r = input r @ ''/'' @ names r ! fileId r"

text \<open>
  The \<^verbatim>\<open>while\<close> loop of the constructor (lines 89 to 97), with the local
  \<^verbatim>\<open>readImgs\<close> as an argument. \<^verbatim>\<open>names[fileId]\<close> is read under \<^verbatim>\<open>fileId < names.size()\<close>
  only.
\<close>

function DirReader_new_loop ::
  "('c, 'img) world \<Rightarrow> DirReader \<Rightarrow> size_t \<Rightarrow> ctor_error + DirReader" where
  "DirReader_new_loop w r readImgs =
     (if fileId r < length (names r) then
        (case imread w (DirReader_path r) of
           Some d \<Rightarrow>
             (if (readImgs + 1) - 1 \<ge> initialImageId r then Inr r
              else DirReader_new_loop w (r\<lparr>fileId := fileId r + 1\<rparr>) (readImgs + 1))
         | None \<Rightarrow> DirReader_new_loop w (r\<lparr>fileId := fileId r + 1\<rparr>) readImgs)
      else Inl (OpenError (''Can't read the first image from '' @ input r)))"
  by pat_completeness auto
termination
  by (relation "measure (\<lambda>(w, r, n). length (names r) - fileId r)") auto

definition DirReader_new ::
  "('c, 'img) world \<Rightarrow> string \<Rightarrow> bool \<Rightarrow> size_t \<Rightarrow> size_t \<Rightarrow> ctor_error + DirReader" where
  "DirReader_new w inp lp initId lenLimit =
     (case opendir w inp of
        None \<Rightarrow> Inl (InvalidInput (''Can't find the dir by '' @ inp))
      | Some ents \<Rightarrow>
          (let nms = filter (\<lambda>n. n \<noteq> ''.'' \<and> n \<noteq> ''..'') ents in
           if nms = [] then Inl (OpenError (''The dir '' @ inp @ '' is empty''))
           else DirReader_new_loop w
                  \<lparr>loop = lp, names = sort nms, fileId = 0, nextImgId = 0,
                   initialImageId = initId, readLengthLimit = lenLimit, input = inp\<rparr> 0))"

text \<open>
  The first loop of \<^verbatim>\<open>read()\<close> (lines 107 to 116). \<open>Some\<close> is the \<^verbatim>\<open>return img\<close> inside
  the loop; \<open>None\<close> is the exit of the loop through its condition.
\<close>

function DirReader_read_scan ::
  "('c, 'img) world \<Rightarrow> DirReader \<Rightarrow> 'img option \<times> DirReader" where
  "DirReader_read_scan w r =
     (if fileId r < length (names r) \<and> nextImgId r < readLengthLimit r then
        (let i = imread w (DirReader_path r);
             r1 = r\<lparr>fileId := fileId r + 1\<rparr>
         in case i of
              Some d \<Rightarrow> (Some d, r1\<lparr>nextImgId := nextImgId r1 + 1\<rparr>)
            | None \<Rightarrow> DirReader_read_scan w r1)
      else (None, r))"
  by pat_completeness auto
termination
  by (relation "measure (\<lambda>(w, r). length (names r) - fileId r)") auto

text \<open>
  The loop of the restart (lines 121 to 132), with the local \<^verbatim>\<open>readImgs\<close> as an
  argument.
\<close>

function DirReader_read_restart ::
  "('c, 'img) world \<Rightarrow> DirReader \<Rightarrow> size_t \<Rightarrow> 'img option \<times> DirReader" where
  "DirReader_read_restart w r readImgs =
     (if fileId r < length (names r) then
        (let i = imread w (DirReader_path r);
             r1 = r\<lparr>fileId := fileId r + 1\<rparr>
         in case i of
              Some d \<Rightarrow>
                (if (readImgs + 1) - 1 \<ge> initialImageId r1
                 then (Some d, r1\<lparr>nextImgId := 1\<rparr>)
                 else DirReader_read_restart w r1 (readImgs + 1))
            | None \<Rightarrow> DirReader_read_restart w r1 readImgs)
      else (None, r))"
  by pat_completeness auto
termination
  by (relation "measure (\<lambda>(w, r, n). length (names r) - fileId r)") auto

definition DirReader_read :: "('c, 'img) world \<Rightarrow> DirReader \<Rightarrow> 'img Mat \<times> DirReader" where
  "DirReader_read w r =
     (case DirReader_read_scan w r of
        (Some d, r1) \<Rightarrow> (Some d, r1)
      | (None, r1) \<Rightarrow>
          if loop r1 then DirReader_read_restart w (r1\<lparr>fileId := 0\<rparr>) 0
          else (None, r1))"

subsection \<open>\<^verbatim>\<open>VideoCapWrapper\<close>\<close>

text \<open>
  The fields of \<^verbatim>\<open>VideoCapWrapper\<close> and \<^verbatim>\<open>CameraCapWrapper\<close> carry the suffixes
  \<open>_vid\<close> and \<open>_cam\<close>, since the three classes name their counters alike.
\<close>

record 'c VideoCapWrapper = ImagesCapture +
  cap_vid :: 'c
  nextImgId_vid :: size_t
  initialImageId_vid :: real
  readLengthLimit_vid :: size_t

definition VideoCapWrapper_new ::
  "('c, 'img) world \<Rightarrow> string \<Rightarrow> bool \<Rightarrow> size_t \<Rightarrow> size_t \<Rightarrow> ctor_error + 'c VideoCapWrapper" where
  "VideoCapWrapper_new w inp lp initId lenLimit =
     (case cap_open_file w inp of
        Some c \<Rightarrow>
          (let (ok, c1) = cap_set w CAP_PROP_POS_FRAMES (real initId) c in
           if \<not> ok then Inl (OpenError ''Can't set the frame to begin with'')
           else Inr \<lparr>loop = lp, cap_vid = c1, nextImgId_vid = 0,
                     initialImageId_vid = real initId, readLengthLimit_vid = lenLimit\<rparr>)
      | None \<Rightarrow> Inl (InvalidInput (''Can't open the video from '' @ inp)))"

text \<open>
  \<^verbatim>\<open>cap.set\<close> is called only where the short-circuit \<^verbatim>\<open>&&\<close> reaches it, and the
  session keeps the effect of every call that was made.
\<close>

definition VideoCapWrapper_read ::
  "('c, 'img) world \<Rightarrow> 'c VideoCapWrapper \<Rightarrow> 'img Mat \<times> 'c VideoCapWrapper" where
  "VideoCapWrapper_read w r =
     (if nextImgId_vid r \<ge> readLengthLimit_vid r then
        (if loop r then
           (let (ok, c1) = cap_set w CAP_PROP_POS_FRAMES (initialImageId_vid r) (cap_vid r) in
            if ok then
              (let (i, c2) = cap_read w c1 in (i, r\<lparr>cap_vid := c2, nextImgId_vid := 1\<rparr>))
            else (None, r\<lparr>cap_vid := c1\<rparr>))
         else (None, r))
      else
        (let (i, c1) = cap_read w (cap_vid r) in
         if i = None \<and> loop r then
           (let (ok, c2) = cap_set w CAP_PROP_POS_FRAMES (initialImageId_vid r) c1 in
            if ok then
              (let (i2, c3) = cap_read w c2 in (i2, r\<lparr>cap_vid := c3, nextImgId_vid := 1\<rparr>))
            else (i, r\<lparr>cap_vid := c2, nextImgId_vid := nextImgId_vid r + 1\<rparr>))
         else (i, r\<lparr>cap_vid := c1, nextImgId_vid := nextImgId_vid r + 1\<rparr>)))"

subsection \<open>\<^verbatim>\<open>CameraCapWrapper\<close>\<close>

record 'c CameraCapWrapper = ImagesCapture +
  cap_cam :: 'c
  nextImgId_cam :: size_t
  initialImageId_cam :: real
  readLengthLimit_cam :: size_t

text \<open>\<^verbatim>\<open>cv::VideoWriter::fourcc\<close> packs four bytes, the first one lowest.\<close>

definition fourcc :: "char \<Rightarrow> char \<Rightarrow> char \<Rightarrow> char \<Rightarrow> int" where
  "fourcc c1 c2 c3 c4 =
     of_char c1 + of_char c2 * 2 ^ 8 + of_char c3 * 2 ^ 16 + of_char c4 * 2 ^ 24"

definition CameraCapWrapper_new ::
  "('c, 'img) world \<Rightarrow> string \<Rightarrow> bool \<Rightarrow> size_t \<Rightarrow> size_t \<Rightarrow> Size \<Rightarrow>
     ctor_error + 'c CameraCapWrapper" where
  "CameraCapWrapper_new w inp lp initId lenLimit cameraResolution =
     (case stoi w inp of
        Inl invalid_argument \<Rightarrow> Inl (InvalidInput (''Can't find the camera '' @ inp))
      | Inl out_of_range \<Rightarrow> Inl (InvalidInput (''Can't find the camera '' @ inp))
      | Inr idx \<Rightarrow>
          (case cap_open_index w idx of
             Some c \<Rightarrow>
               (let c1 = snd (cap_set w CAP_PROP_BUFFERSIZE 1 c);
                    c2 = snd (cap_set w CAP_PROP_FRAME_WIDTH (of_int (width cameraResolution)) c1);
                    c3 = snd (cap_set w CAP_PROP_FRAME_HEIGHT (of_int (height cameraResolution)) c2);
                    c4 = snd (cap_set w CAP_PROP_AUTOFOCUS 1 c3);
                    c5 = snd (cap_set w CAP_PROP_FOURCC
                                (of_int (fourcc CHR ''M'' CHR ''J'' CHR ''P'' CHR ''G'')) c4)
                in Inr \<lparr>loop = lp, cap_cam = c5, nextImgId_cam = 0,
                         initialImageId_cam = real initId,
                         readLengthLimit_cam = (if lp then SIZE_MAX else lenLimit)\<rparr>)
           | None \<Rightarrow> Inl (OpenError (''Can't open the camera from '' @ inp))))"

definition CameraCapWrapper_read ::
  "('c, 'img) world \<Rightarrow> 'c CameraCapWrapper \<Rightarrow>
     runtime_error + ('img Mat \<times> 'c CameraCapWrapper)" where
  "CameraCapWrapper_read w r =
     (if nextImgId_cam r \<ge> readLengthLimit_cam r then Inr (None, r)
      else
        (let (i, c1) = cap_read w (cap_cam r) in
         if i = None then Inl (RuntimeError ''The image can't be captured from the camera'')
         else Inr (i, r\<lparr>cap_cam := c1, nextImgId_cam := nextImgId_cam r + 1\<rparr>)))"

subsection \<open>The interface: \<^verbatim>\<open>std::unique_ptr<ImagesCapture>\<close>\<close>

datatype ('c, 'img) reader =
    Imread "'img ImreadWrapper"
  | Dir DirReader
  | VideoCap "'c VideoCapWrapper"
  | CameraCap "'c CameraCapWrapper"

fun getType :: "('c, 'img) reader \<Rightarrow> string" where
  "getType (Imread r) = ''IMAGE''"
| "getType (Dir r) = ''DIR''"
| "getType (VideoCap r) = ''VIDEO''"
| "getType (CameraCap r) = ''CAMERA''"

text \<open>The virtual call \<^verbatim>\<open>read()\<close>.\<close>

fun read :: "('c, 'img) world \<Rightarrow> ('c, 'img) reader \<Rightarrow> runtime_error + ('img Mat \<times> ('c, 'img) reader)" where
  "read w (Imread r) = (case ImreadWrapper_read r of (i, r') \<Rightarrow> Inr (i, Imread r'))"
| "read w (Dir r) = (case DirReader_read w r of (i, r') \<Rightarrow> Inr (i, Dir r'))"
| "read w (VideoCap r) = (case VideoCapWrapper_read w r of (i, r') \<Rightarrow> Inr (i, VideoCap r'))"
| "read w (CameraCap r) =
     (case CameraCapWrapper_read w r of
        Inl e \<Rightarrow> Inl e
      | Inr (i, r') \<Rightarrow> Inr (i, CameraCap r'))"

text \<open>
  A caller that calls \<^verbatim>\<open>read()\<close> \<open>n\<close> times in a row: the frames in the order of the
  calls and the reader afterwards, or the first exception.
\<close>

fun reads ::
  "('c, 'img) world \<Rightarrow> nat \<Rightarrow> ('c, 'img) reader \<Rightarrow>
     runtime_error + ('img Mat list \<times> ('c, 'img) reader)" where
  "reads w 0 rd = Inr ([], rd)"
| "reads w (Suc n) rd =
     (case read w rd of
        Inl e \<Rightarrow> Inl e
      | Inr (i, rd1) \<Rightarrow>
          (case reads w n rd1 of
             Inl e \<Rightarrow> Inl e
           | Inr (is, rd2) \<Rightarrow> Inr (i # is, rd2)))"

subsection \<open>\<^verbatim>\<open>openImagesCapture\<close>\<close>

text \<open>
  The two \<^verbatim>\<open>catch\<close> clauses that follow every \<^verbatim>\<open>try\<close>, on the pair
  (\<^verbatim>\<open>invalidInputs\<close>, \<^verbatim>\<open>openErrors\<close>).
\<close>

fun catch_ctor :: "ctor_error \<Rightarrow> string list \<times> string list \<Rightarrow> string list \<times> string list" where
  "catch_ctor (InvalidInput m) (invalidInputs, openErrors) = (invalidInputs @ [m], openErrors)"
| "catch_ctor (OpenError m) (invalidInputs, openErrors) = (invalidInputs, openErrors @ [m])"

text \<open>The loop \<^verbatim>\<open>for (message : errorMessages) errorsInfo.append(message + "\n")\<close>.\<close>

definition errorsInfo :: "string list \<Rightarrow> string" where
  "errorsInfo errorMessages = foldl (\<lambda>s message. s @ (message @ [CHR 0x0A])) [] errorMessages"

text \<open>
  The constructors that a call of \<^verbatim>\<open>openImagesCapture\<close> invokes are an effect of the
  call. The model returns them, in the order of the calls, beside the result.
\<close>

datatype probe = ProbeImage | ProbeDir | ProbeVideo | ProbeCamera

definition openImagesCapture ::
  "('c, 'img) world \<Rightarrow> string \<Rightarrow> bool \<Rightarrow> size_t \<Rightarrow> size_t \<Rightarrow> Size \<Rightarrow>
     probe list \<times> (runtime_error + ('c, 'img) reader)" where
  "openImagesCapture w inp lp initId lenLimit cameraResolution =
     (if lenLimit = 0 then ([], Inl (RuntimeError ''Read length limit must be positive''))
      else
        (case ImreadWrapper_new w inp lp of
           Inr r \<Rightarrow> ([ProbeImage], Inr (Imread r))
         | Inl e1 \<Rightarrow>
        (let errs1 = catch_ctor e1 ([], []) in
         case DirReader_new w inp lp initId lenLimit of
           Inr r \<Rightarrow> ([ProbeImage, ProbeDir], Inr (Dir r))
         | Inl e2 \<Rightarrow>
        (let errs2 = catch_ctor e2 errs1 in
         case VideoCapWrapper_new w inp lp initId lenLimit of
           Inr r \<Rightarrow> ([ProbeImage, ProbeDir, ProbeVideo], Inr (VideoCap r))
         | Inl e3 \<Rightarrow>
        (let errs3 = catch_ctor e3 errs2 in
         case CameraCapWrapper_new w inp lp initId lenLimit cameraResolution of
           Inr r \<Rightarrow> ([ProbeImage, ProbeDir, ProbeVideo, ProbeCamera], Inr (CameraCap r))
         | Inl e4 \<Rightarrow>
        (let (invalidInputs, openErrors) = catch_ctor e4 errs3;
             errorMessages = (if openErrors = [] then invalidInputs else openErrors)
         in ([ProbeImage, ProbeDir, ProbeVideo, ProbeCamera],
             Inl (RuntimeError (errorsInfo errorMessages)))))))))"

subsection \<open>The resolver as the specification words it\<close>

text \<open>
  The specification describes the resolver as an ordered list of probes, each with one of
  three outcomes, and a priority rule for the two lists of diagnostics. \<open>resolve_spec\<close>
  follows these words, not the code; it is compared with \<open>openImagesCapture\<close> below.
\<close>

datatype 'r probe_result = Opened 'r | NotThisKind string | CouldNotBeOpened string

fun classify :: "('a \<Rightarrow> 'r) \<Rightarrow> ctor_error + 'a \<Rightarrow> 'r probe_result" where
  "classify wrap (Inr r) = Opened (wrap r)"
| "classify wrap (Inl (InvalidInput m)) = NotThisKind m"
| "classify wrap (Inl (OpenError m)) = CouldNotBeOpened m"

fun resolve_spec ::
  "(probe \<times> 'r probe_result) list \<Rightarrow> string list \<Rightarrow> string list \<Rightarrow>
     probe list \<times> (runtime_error + 'r)" where
  "resolve_spec [] weak strong =
     ([], Inl (RuntimeError (concat (map (\<lambda>m. m @ [CHR 0x0A])
                                       (if strong = [] then weak else strong)))))"
| "resolve_spec ((k, Opened r) # ps) weak strong = ([k], Inr r)"
| "resolve_spec ((k, NotThisKind m) # ps) weak strong =
     (case resolve_spec ps (weak @ [m]) strong of (tr, res) \<Rightarrow> (k # tr, res))"
| "resolve_spec ((k, CouldNotBeOpened m) # ps) weak strong =
     (case resolve_spec ps weak (strong @ [m]) of (tr, res) \<Rightarrow> (k # tr, res))"

text \<open>The four probes of a call, in the order of the specification.\<close>

definition probes ::
  "('c, 'img) world \<Rightarrow> string \<Rightarrow> bool \<Rightarrow> size_t \<Rightarrow> size_t \<Rightarrow> Size \<Rightarrow>
     (probe \<times> ('c, 'img) reader probe_result) list" where
  "probes w inp lp initId lenLimit cameraResolution =
     [(ProbeImage, classify Imread (ImreadWrapper_new w inp lp)),
      (ProbeDir, classify Dir (DirReader_new w inp lp initId lenLimit)),
      (ProbeVideo, classify VideoCap (VideoCapWrapper_new w inp lp initId lenLimit)),
      (ProbeCamera, classify CameraCap
                      (CameraCapWrapper_new w inp lp initId lenLimit cameraResolution))]"

text \<open>
  The message of the aggregate failure, from the failures of the probes in their order:
  the diagnostics of the opening failures if there is one, else those of the others.
\<close>

definition aggregate_spec :: "ctor_error list \<Rightarrow> string" where
  "aggregate_spec es =
     (let strong = List.map_filter (\<lambda>e. case e of OpenError m \<Rightarrow> Some m | InvalidInput m \<Rightarrow> None) es;
          weak = List.map_filter (\<lambda>e. case e of InvalidInput m \<Rightarrow> Some m | OpenError m \<Rightarrow> None) es
      in concat (map (\<lambda>m. m @ [CHR 0x0A]) (if strong \<noteq> [] then strong else weak)))"

definition all_probes :: "probe list" where
  "all_probes = [ProbeImage, ProbeDir, ProbeVideo, ProbeCamera]"

subsection \<open>The directory as the specification words it\<close>

text \<open>
  The sorted listing of a directory (without \<^verbatim>\<open>.\<close> and \<^verbatim>\<open>..\<close>), and the images
  that the entries of a list of names decode to, in the order of the list.
\<close>

definition listing :: "('c, 'img) world \<Rightarrow> string \<Rightarrow> string list" where
  "listing w inp =
     (case opendir w inp of
        None \<Rightarrow> []
      | Some ents \<Rightarrow> sort (filter (\<lambda>n. n \<noteq> ''.'' \<and> n \<noteq> ''..'') ents))"

definition decodable :: "('c, 'img) world \<Rightarrow> string \<Rightarrow> string list \<Rightarrow> 'img list" where
  "decodable w inp ns = List.map_filter (\<lambda>n. imread w (inp @ ''/'' @ n)) ns"

text \<open>
  The frames of one pass of a \<^verbatim>\<open>DirReader\<close> with \<^verbatim>\<open>initialImageId = k\<close> and
  \<^verbatim>\<open>readLengthLimit = L\<close> over a directory with \<open>N\<close> decodable images: the
  decodable images of the sorted listing from the \<open>k\<close>-th on, \<open>min L (N - k)\<close> of them.
\<close>

definition pass_spec :: "('c, 'img) world \<Rightarrow> string \<Rightarrow> size_t \<Rightarrow> size_t \<Rightarrow> 'img list" where
  "pass_spec w inp k L =
     (let imgs = decodable w inp (listing w inp)
      in take (min L (length imgs - k)) (drop k imgs))"

subsection \<open>A world to run the readers in\<close>

text \<open>
  Sessions of three kinds: a video file with its frames and its position, which seeks
  anywhere; a stream with its frames and its position, which accepts a seek only to the
  position it is at; and a device that delivers frame \<open>n\<close>, then \<open>n + 1\<close>, without end.
  Images are numbers.
\<close>

datatype session = File "nat list" nat | Stream "nat list" nat | Device nat

fun session_read :: "session \<Rightarrow> nat Mat \<times> session" where
  "session_read (File fs p) = (if p < length fs then (Some (fs ! p), File fs (p + 1)) else (None, File fs p))"
| "session_read (Stream fs p) = (if p < length fs then (Some (fs ! p), Stream fs (p + 1)) else (None, Stream fs p))"
| "session_read (Device n) = (Some n, Device (n + 1))"

fun session_set :: "cap_prop \<Rightarrow> real \<Rightarrow> session \<Rightarrow> bool \<times> session" where
  "session_set CAP_PROP_POS_FRAMES v (File fs p) = (True, File fs (nat \<lfloor>v\<rfloor>))"
| "session_set CAP_PROP_POS_FRAMES v (Stream fs p) = (v = real p, Stream fs p)"
| "session_set pr v c = (False, c)"

definition demo_world :: "(session, nat) world" where
  "demo_world =
     \<lparr>file_good = (\<lambda>p. p = ''cat.png'' \<or> p = ''notes.txt''),
      imread = (\<lambda>p. if p = ''cat.png'' then Some 1
                     else if p = ''pics/a.png'' then Some 10
                     else if p = ''pics/c.png'' then Some 30
                     else if p = ''pics/d.png'' then Some 40
                     else None),
      opendir = (\<lambda>p. if p = ''pics'' then Some [''d.png'', ''.'', ''b.txt'', ''..'', ''c.png'', ''a.png'']
                      else if p = ''void'' then Some [''.'', ''..'']
                      else None),
      stoi = (\<lambda>s. if s = ''0'' then Inr 0
                   else if s = ''1'' then Inr 1
                   else if s = ''7'' then Inr 7
                   else if s = ''99999999999'' then Inl out_of_range
                   else Inl invalid_argument),
      cap_open_file = (\<lambda>p. if p = ''clip.mp4'' then Some (File [100, 101, 102, 103] 0)
                            else if p = ''pipe'' then Some (Stream [100] 0)
                            else if p = ''pipe2'' then Some (Stream [100, 101] 0)
                            else None),
      cap_open_index = (\<lambda>i. if i = 0 then Some (Device 0)
                             else if i = 1 then Some (File [200] 0)
                             else None),
      cap_set = session_set,
      cap_read = session_read\<rparr>"

section \<open>Properties\<close>

subsection \<open>The resolver\<close>

lemma errorsInfo_foldl:
  "foldl (\<lambda>s message. s @ (message @ [CHR 0x0A])) acc ms = acc @ concat (map (\<lambda>m. m @ [CHR 0x0A]) ms)"
  by (induction ms arbitrary: acc) simp_all

lemma errorsInfo_concat: "errorsInfo ms = concat (map (\<lambda>m. m @ [CHR 0x0A]) ms)"
  by (simp add: errorsInfo_def errorsInfo_foldl)

text \<open>
  C1. With \<^verbatim>\<open>readLengthLimit == 0\<close>, \<^verbatim>\<open>openImagesCapture\<close> throws
  \<^verbatim>\<open>std::runtime_error{"Read length limit must be positive"}\<close> whatever the input, the
  other arguments and the world are, and it has invoked no constructor.
\<close>

theorem openImagesCapture_zero_limit:
  "openImagesCapture w inp lp initId 0 cameraResolution = ([], Inl (RuntimeError ''Read length limit must be positive''))"
  by (simp add: openImagesCapture_def)

text \<open>
  C2. With a positive limit, \<^verbatim>\<open>openImagesCapture\<close> is the ordered resolution of the
  specification over the probes still-image, directory, video, camera: it invokes the
  constructors in this order up to the first one that succeeds, returns that reader, and
  files every failure before it as "not this kind" (\<^verbatim>\<open>InvalidInput\<close>) or as "could not
  be opened" (\<^verbatim>\<open>OpenError\<close>).
\<close>

theorem openImagesCapture_resolve_spec:
  "0 < lenLimit \<Longrightarrow>
   openImagesCapture w inp lp initId lenLimit cameraResolution =
   resolve_spec (probes w inp lp initId lenLimit cameraResolution) [] []"
proof -
  assume pos: "0 < lenLimit"
  show ?thesis
  proof (cases "ImreadWrapper_new w inp lp")
    case (Inr r)
    with pos show ?thesis by (simp add: openImagesCapture_def probes_def)
  next
    case e1: (Inl e1)
    show ?thesis
    proof (cases "DirReader_new w inp lp initId lenLimit")
      case (Inr r)
      with pos e1 show ?thesis by (cases e1) (simp_all add: openImagesCapture_def probes_def)
    next
      case e2: (Inl e2)
      show ?thesis
      proof (cases "VideoCapWrapper_new w inp lp initId lenLimit")
        case (Inr r)
        with pos e1 e2 show ?thesis
          by (cases e1; cases e2) (simp_all add: openImagesCapture_def probes_def)
      next
        case e3: (Inl e3)
        show ?thesis
        proof (cases "CameraCapWrapper_new w inp lp initId lenLimit cameraResolution")
          case (Inr r)
          with pos e1 e2 e3 show ?thesis
            by (cases e1; cases e2; cases e3) (simp_all add: openImagesCapture_def probes_def)
        next
          case e4: (Inl e4)
          with pos e1 e2 e3 show ?thesis
            by (cases e1; cases e2; cases e3; cases e4)
               (simp_all add: openImagesCapture_def probes_def errorsInfo_concat)
        qed
      qed
    qed
  qed
qed

theorem openImagesCapture_resolve_spec_witness:
  "(0::nat) < 3 \<and>
   resolve_spec (probes demo_world ''pics'' False 1 3 \<lparr>width = 1280, height = 720\<rparr>) [] [] =
     ([ProbeImage, ProbeDir],
      Inr (Dir \<lparr>loop = False, names = [''a.png'', ''b.txt'', ''c.png'', ''d.png''],
               fileId = 2, nextImgId = 0, initialImageId = 1, readLengthLimit = 3,
               input = ''pics''\<rparr>))"
proof -
  have ev: "openImagesCapture demo_world ''pics'' False 1 3 \<lparr>width = 1280, height = 720\<rparr> =
     ([ProbeImage, ProbeDir],
      Inr (Dir \<lparr>loop = False, names = [''a.png'', ''b.txt'', ''c.png'', ''d.png''],
               fileId = 2, nextImgId = 0, initialImageId = 1, readLengthLimit = 3,
               input = ''pics''\<rparr>))"
    by (simp add: openImagesCapture_def ImreadWrapper_new_def DirReader_new_def demo_world_def DirReader_path_def)
  show ?thesis
    using openImagesCapture_resolve_spec [of 3 demo_world "''pics''" False 1 "\<lparr>width = 1280, height = 720\<rparr>"] ev by simp
qed

lemma four_ctors_fail:
  assumes "0 < lenLimit"
    and "ImreadWrapper_new w inp lp = Inl e1"
    and "DirReader_new w inp lp initId lenLimit = Inl e2"
    and "VideoCapWrapper_new w inp lp initId lenLimit = Inl e3"
    and "CameraCapWrapper_new w inp lp initId lenLimit cameraResolution = Inl e4"
  shows "openImagesCapture w inp lp initId lenLimit cameraResolution =
           (all_probes, Inl (RuntimeError (aggregate_spec [e1, e2, e3, e4])))"
  using assms
  by (cases e1; cases e2; cases e3; cases e4)
     (simp_all add: openImagesCapture_def all_probes_def aggregate_spec_def errorsInfo_concat
        List.map_filter_simps)

lemma no_kind_ctors:
  assumes "\<not> file_good w inp" and "opendir w inp = None" and "cap_open_file w inp = None"
    and "stoi w inp = Inl se"
  shows "ImreadWrapper_new w inp lp = Inl (InvalidInput (''Can't find the image by '' @ inp))"
    and "DirReader_new w inp lp initId lenLimit = Inl (InvalidInput (''Can't find the dir by '' @ inp))"
    and "VideoCapWrapper_new w inp lp initId lenLimit = Inl (InvalidInput (''Can't open the video from '' @ inp))"
    and "CameraCapWrapper_new w inp lp initId lenLimit cameraResolution = Inl (InvalidInput (''Can't find the camera '' @ inp))"
  using assms
  by (simp_all add: ImreadWrapper_new_def DirReader_new_def VideoCapWrapper_new_def
        CameraCapWrapper_new_def split: stoi_error.splits)

text \<open>
  C3. With a positive limit, when the four constructors fail, \<^verbatim>\<open>openImagesCapture\<close>
  throws one \<^verbatim>\<open>std::runtime_error\<close> after the four probes. Its message is made of the
  \<^verbatim>\<open>OpenError\<close> diagnostics if there is one, else of the \<^verbatim>\<open>InvalidInput\<close> diagnostics,
  in the order of the probes, each followed by a newline. When the input is no readable
  file, no directory, no video and no number, the message holds the four diagnostics, one
  for every probe.
\<close>

theorem openImagesCapture_all_fail:
  assumes "0 < lenLimit"
  shows "(ImreadWrapper_new w inp lp = Inl e1 \<and>
          DirReader_new w inp lp initId lenLimit = Inl e2 \<and>
          VideoCapWrapper_new w inp lp initId lenLimit = Inl e3 \<and>
          CameraCapWrapper_new w inp lp initId lenLimit cameraResolution = Inl e4 \<longrightarrow>
          openImagesCapture w inp lp initId lenLimit cameraResolution =
            (all_probes, Inl (RuntimeError (aggregate_spec [e1, e2, e3, e4])))) \<and>
         (\<not> file_good w inp \<and> opendir w inp = None \<and> cap_open_file w inp = None \<and>
          isl (stoi w inp) \<longrightarrow>
          openImagesCapture w inp lp initId lenLimit cameraResolution =
            (all_probes,
             Inl (RuntimeError
                   (''Can't find the image by '' @ inp @ [CHR 0x0A] @
                    ''Can't find the dir by '' @ inp @ [CHR 0x0A] @
                    ''Can't open the video from '' @ inp @ [CHR 0x0A] @
                    ''Can't find the camera '' @ inp @ [CHR 0x0A]))))"
proof (intro conjI impI)
  assume "ImreadWrapper_new w inp lp = Inl e1 \<and>
          DirReader_new w inp lp initId lenLimit = Inl e2 \<and>
          VideoCapWrapper_new w inp lp initId lenLimit = Inl e3 \<and>
          CameraCapWrapper_new w inp lp initId lenLimit cameraResolution = Inl e4"
  with assms show "openImagesCapture w inp lp initId lenLimit cameraResolution =
            (all_probes, Inl (RuntimeError (aggregate_spec [e1, e2, e3, e4])))"
    by (simp add: four_ctors_fail)
next
  assume a: "\<not> file_good w inp \<and> opendir w inp = None \<and> cap_open_file w inp = None \<and>
          isl (stoi w inp)"
  then obtain se where se: "stoi w inp = Inl se" by (auto simp: isl_def)
  from a se have "openImagesCapture w inp lp initId lenLimit cameraResolution =
     (all_probes, Inl (RuntimeError (aggregate_spec
        [InvalidInput (''Can't find the image by '' @ inp),
         InvalidInput (''Can't find the dir by '' @ inp),
         InvalidInput (''Can't open the video from '' @ inp),
         InvalidInput (''Can't find the camera '' @ inp)])))"
    by (intro four_ctors_fail assms no_kind_ctors) simp_all
  then show "openImagesCapture w inp lp initId lenLimit cameraResolution =
            (all_probes,
             Inl (RuntimeError
                   (''Can't find the image by '' @ inp @ [CHR 0x0A] @
                    ''Can't find the dir by '' @ inp @ [CHR 0x0A] @
                    ''Can't open the video from '' @ inp @ [CHR 0x0A] @
                    ''Can't find the camera '' @ inp @ [CHR 0x0A])))"
    by (simp add: aggregate_spec_def List.map_filter_simps)
qed

lemma demo_void_ctors:
  "ImreadWrapper_new demo_world ''void'' False = Inl (InvalidInput ''Can't find the image by void'')"
  "DirReader_new demo_world ''void'' False 0 3 = Inl (OpenError ''The dir void is empty'')"
  "VideoCapWrapper_new demo_world ''void'' False 0 3 = Inl (InvalidInput ''Can't open the video from void'')"
  "CameraCapWrapper_new demo_world ''void'' False 0 3 \<lparr>width = 1280, height = 720\<rparr> =
     Inl (InvalidInput ''Can't find the camera void'')"
  by (simp_all add: ImreadWrapper_new_def DirReader_new_def VideoCapWrapper_new_def
        CameraCapWrapper_new_def demo_world_def)

theorem openImagesCapture_all_fail_witness:
  "openImagesCapture demo_world ''void'' False 0 3 \<lparr>width = 1280, height = 720\<rparr> =
     ([ProbeImage, ProbeDir, ProbeVideo, ProbeCamera],
      Inl (RuntimeError (''The dir void is empty'' @ [CHR 0x0A]))) \<and>
   openImagesCapture demo_world ''nothing'' False 0 3 \<lparr>width = 1280, height = 720\<rparr> =
     ([ProbeImage, ProbeDir, ProbeVideo, ProbeCamera],
      Inl (RuntimeError
            (''Can't find the image by nothing'' @ [CHR 0x0A] @
             ''Can't find the dir by nothing'' @ [CHR 0x0A] @
             ''Can't open the video from nothing'' @ [CHR 0x0A] @
             ''Can't find the camera nothing'' @ [CHR 0x0A])))"
proof -
  have pos: "(0::nat) < 3" by simp
  have no_kind_demo: "\<not> file_good demo_world ''nothing'' \<and> opendir demo_world ''nothing'' = None \<and>
      cap_open_file demo_world ''nothing'' = None \<and> isl (stoi demo_world ''nothing'')"
    by (simp add: demo_world_def)
  have agg: "aggregate_spec [InvalidInput ''Can't find the image by void'',
       OpenError ''The dir void is empty'', InvalidInput ''Can't open the video from void'',
       InvalidInput ''Can't find the camera void''] = ''The dir void is empty'' @ [CHR 0x0A]"
    by (simp add: aggregate_spec_def List.map_filter_simps)
  have void: "openImagesCapture demo_world ''void'' False 0 3 \<lparr>width = 1280, height = 720\<rparr> =
      (all_probes, Inl (RuntimeError (aggregate_spec [InvalidInput ''Can't find the image by void'',
       OpenError ''The dir void is empty'', InvalidInput ''Can't open the video from void'',
       InvalidInput ''Can't find the camera void''])))"
    by (rule openImagesCapture_all_fail [OF pos, THEN conjunct1, THEN mp]) (simp add: demo_void_ctors)
  have open_nothing: "openImagesCapture demo_world ''nothing'' False 0 3 \<lparr>width = 1280, height = 720\<rparr> =
            (all_probes,
             Inl (RuntimeError
                   (''Can't find the image by '' @ ''nothing'' @ [CHR 0x0A] @
                    ''Can't find the dir by '' @ ''nothing'' @ [CHR 0x0A] @
                    ''Can't open the video from '' @ ''nothing'' @ [CHR 0x0A] @
                    ''Can't find the camera '' @ ''nothing'' @ [CHR 0x0A])))"
    by (rule openImagesCapture_all_fail [OF pos, THEN conjunct2, THEN mp]) (rule no_kind_demo)
  show ?thesis
    unfolding void open_nothing agg all_probes_def by simp
qed

subsection \<open>\<^verbatim>\<open>ImreadWrapper\<close>\<close>

lemma Imread_spent:
  "\<not> loop r \<Longrightarrow> \<not> canRead r \<Longrightarrow> reads w n (Imread r) = Inr (replicate n None, Imread r)"
  by (induction n) (simp_all add: ImreadWrapper_read_def)

text \<open>
  C4. For an \<^verbatim>\<open>ImreadWrapper\<close> constructed with \<^verbatim>\<open>loop == false\<close>, the first
  \<^verbatim>\<open>read()\<close> returns the decoded image, which is not empty, and each of the \<open>n\<close> calls
  after it returns the empty \<^verbatim>\<open>cv::Mat\<close>, for every \<open>n\<close>.
\<close>

theorem ImreadWrapper_read_once:
  "ImreadWrapper_new w inp False = Inr r \<Longrightarrow>
   \<exists>d. imread w inp = Some d \<and>
     reads w (Suc n) (Imread r) = Inr (Some d # replicate n None, Imread (r\<lparr>canRead := False\<rparr>))"
proof -
  assume new: "ImreadWrapper_new w inp False = Inr r"
  then obtain d where d: "imread w inp = Some d"
    and r: "r = \<lparr>loop = False, img = Some d, canRead = True\<rparr>"
    by (auto simp: ImreadWrapper_new_def split: if_splits option.splits)
  have first: "read w (Imread r) = Inr (Some d, Imread (r\<lparr>canRead := False\<rparr>))"
    by (simp add: r ImreadWrapper_read_def)
  have rest: "reads w n (Imread (r\<lparr>canRead := False\<rparr>)) =
      Inr (replicate n None, Imread (r\<lparr>canRead := False\<rparr>))"
    by (rule Imread_spent) (simp_all add: r)
  show ?thesis using d first rest by simp
qed

theorem ImreadWrapper_read_once_witness:
  "ImreadWrapper_new demo_world ''cat.png'' False = Inr \<lparr>loop = False, img = Some 1, canRead = True\<rparr> \<and>
   reads demo_world 3 (Imread \<lparr>loop = False, img = Some 1, canRead = True\<rparr>) =
     Inr ([Some 1, None, None], Imread \<lparr>loop = False, img = Some 1, canRead = False\<rparr>)"
proof -
  have new: "ImreadWrapper_new demo_world ''cat.png'' False = Inr \<lparr>loop = False, img = Some 1, canRead = True\<rparr>"
    by (simp add: ImreadWrapper_new_def demo_world_def)
  have rd: "imread demo_world ''cat.png'' = Some 1"
    by (simp add: demo_world_def)
  show ?thesis using ImreadWrapper_read_once [OF new, of 2] new rd by (simp add: numeral_3_eq_3 numeral_2_eq_2)
qed

subsection \<open>\<^verbatim>\<open>DirReader\<close>\<close>

lemma decodable_Nil [simp]: "decodable w inp [] = []"
  by (simp add: decodable_def)

lemma decodable_append: "decodable w inp (xs @ ys) = decodable w inp xs @ decodable w inp ys"
  by (induction xs) (simp_all add: decodable_def split: option.splits)

lemma decodable_drop_Some:
  "i < length ns \<Longrightarrow> imread w (inp @ ''/'' @ ns ! i) = Some d \<Longrightarrow>
   decodable w inp (drop i ns) = d # decodable w inp (drop (Suc i) ns)"
  by (simp add: decodable_def Cons_nth_drop_Suc [symmetric])

lemma decodable_drop_None:
  "i < length ns \<Longrightarrow> imread w (inp @ ''/'' @ ns ! i) = None \<Longrightarrow>
   decodable w inp (drop i ns) = decodable w inp (drop (Suc i) ns)"
  by (simp add: decodable_def Cons_nth_drop_Suc [symmetric])

lemma scan_result:
  "DirReader_read_scan w r = (res, r') \<Longrightarrow>
   r' = r\<lparr>fileId := fileId r', nextImgId := nextImgId r'\<rparr> \<and>
   fileId r \<le> fileId r' \<and>
   (fileId r \<le> length (names r) \<longrightarrow> fileId r' \<le> length (names r)) \<and>
   (case res of
      Some d \<Rightarrow>
        nextImgId r < readLengthLimit r \<and> nextImgId r' = nextImgId r + 1 \<and>
        decodable w (input r) (drop (fileId r) (names r)) =
          d # decodable w (input r) (drop (fileId r') (names r))
    | None \<Rightarrow>
        nextImgId r' = nextImgId r \<and>
        (if nextImgId r < readLengthLimit r
         then decodable w (input r) (drop (fileId r) (names r)) = [] \<and> length (names r) \<le> fileId r'
         else r' = r))"
proof (induction w r arbitrary: res r' rule: DirReader_read_scan.induct)
  case (1 w r)
  show ?case
  proof (cases "fileId r < length (names r) \<and> nextImgId r < readLengthLimit r")
    case False
    with "1.prems" have "res = None" "r' = r" by auto
    with False show ?thesis by auto
  next
    case True
    let ?r1 = "r\<lparr>fileId := fileId r + 1\<rparr>"
    show ?thesis
    proof (cases "imread w (DirReader_path r)")
      case (Some d)
      with True "1.prems" have "res = Some d" "r' = ?r1\<lparr>nextImgId := nextImgId ?r1 + 1\<rparr>"
        by auto
      with True Some show ?thesis
        by (simp add: decodable_drop_Some DirReader_path_def)
    next
      case None
      with True "1.prems" have rec: "DirReader_read_scan w ?r1 = (res, r')" by auto
      from "1.IH" [OF True refl refl None rec]
      have ih: "r' = ?r1\<lparr>fileId := fileId r', nextImgId := nextImgId r'\<rparr>"
        "fileId ?r1 \<le> fileId r'"
        "fileId ?r1 \<le> length (names ?r1) \<longrightarrow> fileId r' \<le> length (names ?r1)"
        "(case res of
      Some d \<Rightarrow>
        nextImgId ?r1 < readLengthLimit ?r1 \<and> nextImgId r' = nextImgId ?r1 + 1 \<and>
        decodable w (input ?r1) (drop (fileId ?r1) (names ?r1)) =
          d # decodable w (input ?r1) (drop (fileId r') (names ?r1))
    | None \<Rightarrow>
        nextImgId r' = nextImgId ?r1 \<and>
        (if nextImgId ?r1 < readLengthLimit ?r1
         then decodable w (input ?r1) (drop (fileId ?r1) (names ?r1)) = [] \<and> length (names ?r1) \<le> fileId r'
         else r' = ?r1))"
        by blast+
      have d: "decodable w (input r) (drop (fileId r) (names r)) =
               decodable w (input r) (drop (Suc (fileId r)) (names r))"
        using True None by (simp add: decodable_drop_None DirReader_path_def)
      have a: "r' = r\<lparr>fileId := fileId r', nextImgId := nextImgId r'\<rparr>"
        using ih(1) by (metis (no_types) DirReader.surjective DirReader.update_convs(2) DirReader.update_convs(3))
      show ?thesis using True ih(2,3,4) a d
        by (auto split: option.splits)
    qed
  qed
qed


lemma new_loop_result:
  "DirReader_new_loop w r j = Inr r' \<Longrightarrow> j \<le> initialImageId r \<Longrightarrow>
   r' = r\<lparr>fileId := fileId r'\<rparr> \<and> fileId r' < length (names r) \<and>
   initialImageId r - j < length (decodable w (input r) (drop (fileId r) (names r))) \<and>
   decodable w (input r) (drop (fileId r') (names r)) =
     drop (initialImageId r - j) (decodable w (input r) (drop (fileId r) (names r)))"
proof (induction w r j arbitrary: r' rule: DirReader_new_loop.induct)
  case (1 w r j)
  from "1.prems" have lt: "fileId r < length (names r)"
    by (auto split: if_splits)
  let ?r1 = "r\<lparr>fileId := fileId r + 1\<rparr>"
  show ?case
  proof (cases "imread w (DirReader_path r)")
    case None
    with lt "1.prems" have rec: "DirReader_new_loop w ?r1 j = Inr r'" by auto
    from "1.IH"(1) [OF lt None rec] "1.prems"(2)
    have ih: "r' = ?r1\<lparr>fileId := fileId r'\<rparr>" "fileId r' < length (names r)"
      "initialImageId r - j < length (decodable w (input r) (drop (Suc (fileId r)) (names r)))"
      "decodable w (input r) (drop (fileId r') (names r)) =
         drop (initialImageId r - j) (decodable w (input r) (drop (Suc (fileId r)) (names r)))"
      by simp_all
    have d: "decodable w (input r) (drop (fileId r) (names r)) =
             decodable w (input r) (drop (Suc (fileId r)) (names r))"
      using lt None by (simp add: decodable_drop_None DirReader_path_def)
    have a: "r' = r\<lparr>fileId := fileId r'\<rparr>"
      using ih(1) by (cases r) simp
    show ?thesis using ih(2,3,4) a d by simp
  next
    case (Some d)
    have dd: "decodable w (input r) (drop (fileId r) (names r)) =
             d # decodable w (input r) (drop (Suc (fileId r)) (names r))"
      using lt Some by (simp add: decodable_drop_Some DirReader_path_def)
    show ?thesis
    proof (cases "initialImageId r \<le> j")
      case True
      with lt Some "1.prems" have "r' = r" by auto
      with True lt "1.prems"(2) dd show ?thesis by simp
    next
      case False
      with lt Some "1.prems" have rec: "DirReader_new_loop w ?r1 (j + 1) = Inr r'" by auto
      have nle: "\<not> initialImageId r \<le> j + 1 - 1" using False by simp
      from False have j1: "j + 1 \<le> initialImageId ?r1" by simp
      from "1.IH"(2) [OF lt Some nle rec j1]
      have ih: "r' = ?r1\<lparr>fileId := fileId r'\<rparr>" "fileId r' < length (names r)"
      "initialImageId r - (j + 1) < length (decodable w (input r) (drop (Suc (fileId r)) (names r)))"
      "decodable w (input r) (drop (fileId r') (names r)) =
         drop (initialImageId r - (j + 1)) (decodable w (input r) (drop (Suc (fileId r)) (names r)))"
        by simp_all
      have a: "r' = r\<lparr>fileId := fileId r'\<rparr>"
        using ih(1) by (cases r) simp
      have k: "initialImageId r - j = Suc (initialImageId r - (j + 1))" using False by simp
      show ?thesis using ih(2,3,4) a dd k by simp
    qed
  qed
qed

lemma restart_result:
  "DirReader_read_restart w r j = (res, r') \<Longrightarrow> j \<le> initialImageId r \<Longrightarrow>
   initialImageId r - j < length (decodable w (input r) (drop (fileId r) (names r))) \<Longrightarrow>
   res = Some (decodable w (input r) (drop (fileId r) (names r)) ! (initialImageId r - j)) \<and>
   r' = r\<lparr>fileId := fileId r', nextImgId := 1\<rparr> \<and> fileId r' \<le> length (names r) \<and>
   fileId r < fileId r' \<and>
   decodable w (input r) (drop (fileId r') (names r)) =
     drop (Suc (initialImageId r - j)) (decodable w (input r) (drop (fileId r) (names r)))"
proof (induction w r j arbitrary: res r' rule: DirReader_read_restart.induct)
  case (1 w r j)
  from "1.prems"(3) have lt: "fileId r < length (names r)"
    by (cases "fileId r < length (names r)") simp_all
  let ?r1 = "r\<lparr>fileId := fileId r + 1\<rparr>"
  show ?case
  proof (cases "imread w (DirReader_path r)")
    case None
    with lt "1.prems" have rec: "DirReader_read_restart w ?r1 j = (res, r')" by auto
    have d: "decodable w (input r) (drop (fileId r) (names r)) =
             decodable w (input r) (drop (Suc (fileId r)) (names r))"
      using lt None by (simp add: decodable_drop_None DirReader_path_def)
    have p2: "j \<le> initialImageId ?r1" using "1.prems"(2) by simp
    have p3: "initialImageId ?r1 - j < length (decodable w (input ?r1) (drop (fileId ?r1) (names ?r1)))"
      using "1.prems"(3) d by simp
    from "1.IH"(1) [OF lt refl refl None rec p2 p3]
    have ih: "res = Some (decodable w (input r) (drop (Suc (fileId r)) (names r)) ! (initialImageId r - j))"
      "r' = ?r1\<lparr>fileId := fileId r', nextImgId := 1\<rparr>" "fileId r' \<le> length (names r)"
      "Suc (fileId r) < fileId r'"
      "decodable w (input r) (drop (fileId r') (names r)) =
         drop (Suc (initialImageId r - j)) (decodable w (input r) (drop (Suc (fileId r)) (names r)))"
      by simp_all
    have a: "r' = r\<lparr>fileId := fileId r', nextImgId := 1\<rparr>"
      using ih(2) by (cases r) simp
    show ?thesis using ih(1,3,4,5) a d by simp
  next
    case (Some d)
    have dd: "decodable w (input r) (drop (fileId r) (names r)) =
             d # decodable w (input r) (drop (Suc (fileId r)) (names r))"
      using lt Some by (simp add: decodable_drop_Some DirReader_path_def)
    show ?thesis
    proof (cases "initialImageId r \<le> j")
      case True
      with lt Some "1.prems" have "res = Some d" "r' = ?r1\<lparr>nextImgId := 1\<rparr>" by auto
      with True lt "1.prems"(2) dd show ?thesis by simp
    next
      case False
      with lt Some "1.prems" have rec: "DirReader_read_restart w ?r1 (j + 1) = (res, r')" by auto
      have nle: "\<not> initialImageId ?r1 \<le> j + 1 - 1" using False by simp
      from False have p2: "j + 1 \<le> initialImageId ?r1" by simp
      have k: "initialImageId r - j = Suc (initialImageId r - (j + 1))" using False by simp
      have p3: "initialImageId ?r1 - (j + 1) < length (decodable w (input ?r1) (drop (fileId ?r1) (names ?r1)))"
        using "1.prems"(3) dd k by simp
      from "1.IH"(2) [OF lt refl refl Some nle rec p2 p3]
      have ih: "res = Some (decodable w (input r) (drop (Suc (fileId r)) (names r)) ! (initialImageId r - (j + 1)))"
      "r' = ?r1\<lparr>fileId := fileId r', nextImgId := 1\<rparr>" "fileId r' \<le> length (names r)"
      "Suc (fileId r) < fileId r'"
      "decodable w (input r) (drop (fileId r') (names r)) =
         drop (Suc (initialImageId r - (j + 1))) (decodable w (input r) (drop (Suc (fileId r)) (names r)))"
        by simp_all
      have a: "r' = r\<lparr>fileId := fileId r', nextImgId := 1\<rparr>"
        using ih(2) by (cases r) simp
      show ?thesis using ih(1,3,4,5) a dd k by simp
    qed
  qed
qed


lemma DirReader_new_result:
  assumes "DirReader_new w inp lp k L = Inr r"
  shows "names r = listing w inp" "input r = inp" "loop r = lp" "initialImageId r = k"
    "readLengthLimit r = L" "nextImgId r = 0" "fileId r < length (listing w inp)"
    "k < length (decodable w inp (listing w inp))"
    "decodable w inp (drop (fileId r) (listing w inp)) = drop k (decodable w inp (listing w inp))"
proof -
  from assms obtain ents where ents: "opendir w inp = Some ents"
    by (auto simp: DirReader_new_def split: option.splits)
  let ?r0 = "\<lparr>loop = lp, names = listing w inp, fileId = 0, nextImgId = 0,
              initialImageId = k, readLengthLimit = L, input = inp\<rparr>"
  from assms ents have loop: "DirReader_new_loop w ?r0 0 = Inr r"
    by (auto simp: DirReader_new_def listing_def Let_def split: if_splits)
  from new_loop_result [OF loop]
  have "r = ?r0\<lparr>fileId := fileId r\<rparr>" "fileId r < length (names ?r0)"
    "initialImageId ?r0 - 0 < length (decodable w (input ?r0) (drop (fileId ?r0) (names ?r0)))"
    "decodable w (input ?r0) (drop (fileId r) (names ?r0)) =
       drop (initialImageId ?r0 - 0) (decodable w (input ?r0) (drop (fileId ?r0) (names ?r0)))"
    by simp_all
  then have r: "r = ?r0\<lparr>fileId := fileId r\<rparr>" and f: "fileId r < length (listing w inp)"
    and k: "k < length (decodable w inp (listing w inp))"
    and d: "decodable w inp (drop (fileId r) (listing w inp)) = drop k (decodable w inp (listing w inp))"
    by simp_all
  show "names r = listing w inp" by (subst r) simp
  show "input r = inp" by (subst r) simp
  show "loop r = lp" by (subst r) simp
  show "initialImageId r = k" by (subst r) simp
  show "readLengthLimit r = L" by (subst r) simp
  show "nextImgId r = 0" by (subst r) simp
  show "fileId r < length (listing w inp)" by (rule f)
  show "k < length (decodable w inp (listing w inp))" by (rule k)
  show "decodable w inp (drop (fileId r) (listing w inp)) = drop k (decodable w inp (listing w inp))"
    by (rule d)
qed

lemma DirReader_read_nonloop:
  "\<not> loop r \<Longrightarrow> DirReader_read w r = DirReader_read_scan w r"
proof -
  assume nl: "\<not> loop r"
  obtain res r1 where sc: "DirReader_read_scan w r = (res, r1)" by (cases "DirReader_read_scan w r")
  from scan_result [OF sc] have "r1 = r\<lparr>fileId := fileId r1, nextImgId := nextImgId r1\<rparr>" by simp
  then have "loop r1 = loop r" by (cases r) (metis DirReader.select_convs(1) DirReader.update_convs(2,3) ImagesCapture.select_convs(1))
  with nl sc show ?thesis by (simp add: DirReader_read_def split: option.splits)
qed


lemma Dir_reads_nonloop:
  "\<not> loop r \<Longrightarrow>
   \<exists>r'. reads w m (Dir r) =
     Inr (map Some (take m (take (readLengthLimit r - nextImgId r)
                              (decodable w (input r) (drop (fileId r) (names r))))) @
          replicate (m - length (take (readLengthLimit r - nextImgId r)
                              (decodable w (input r) (drop (fileId r) (names r))))) None,
          Dir r')"
proof (induction m arbitrary: r)
  case 0
  show ?case by simp
next
  case (Suc m)
  let ?D = "decodable w (input r) (drop (fileId r) (names r))"
  let ?X = "take (readLengthLimit r - nextImgId r) ?D"
  obtain res r1 where sc: "DirReader_read_scan w r = (res, r1)"
    by (cases "DirReader_read_scan w r")
  note sr = scan_result [OF sc]
  from sr have eq: "r1 = r\<lparr>fileId := fileId r1, nextImgId := nextImgId r1\<rparr>" by simp
  have st: "loop r1 = loop r" "names r1 = names r" "input r1 = input r"
    "readLengthLimit r1 = readLengthLimit r"
    using arg_cong [OF eq, of loop] arg_cong [OF eq, of names] arg_cong [OF eq, of input]
      arg_cong [OF eq, of readLengthLimit] by simp_all
  have rd: "read w (Dir r) = Inr (res, Dir r1)"
    using Suc.prems sc by (simp add: DirReader_read_nonloop)
  let ?D1 = "decodable w (input r) (drop (fileId r1) (names r))"
  let ?X1 = "take (readLengthLimit r - nextImgId r1) ?D1"
  from Suc.prems st have "\<not> loop r1" by simp
  from Suc.IH [OF this, unfolded st] obtain r' where
    rest: "reads w m (Dir r1) = Inr (map Some (take m ?X1) @ replicate (m - length ?X1) None, Dir r')"
    by blast
  show ?case
  proof (cases res)
    case (Some d)
    with sr have c: "nextImgId r < readLengthLimit r" "nextImgId r1 = nextImgId r + 1"
      and D: "?D = d # ?D1" by simp_all
    from c have "readLengthLimit r - nextImgId r = Suc (readLengthLimit r - nextImgId r1)" by simp
    with D have X: "?X = d # ?X1" by simp
    show ?thesis using rd rest Some unfolding X by simp
  next
    case None
    have X: "?X = []" and X1: "?X1 = []"
    proof -
      from None sr have c: "nextImgId r1 = nextImgId r"
        and alt: "if nextImgId r < readLengthLimit r
         then ?D = [] \<and> length (names r) \<le> fileId r1 else r1 = r" by simp_all
      show "?X = []" using alt by (auto split: if_splits)
      show "?X1 = []" using alt c by (auto split: if_splits)
    qed
    show ?thesis using rd rest None unfolding X X1 by (simp add: replicate_app_Cons_same)
  qed
qed

text \<open>
  C5. For a \<^verbatim>\<open>DirReader\<close> constructed with \<^verbatim>\<open>loop == false\<close>,
  \<^verbatim>\<open>initialImageId = k\<close> and \<^verbatim>\<open>readLengthLimit = L\<close> over a directory whose sorted
  listing holds \<open>N\<close> decodable images: \<open>k < N\<close>, and \<open>m\<close> calls of \<^verbatim>\<open>read()\<close>
  return the first \<open>m\<close> of the \<open>min L (N - k)\<close> frames of the pass (the decodable images
  in the order of the sorted listing, from the \<open>k\<close>-th on) and the empty frame in every call
  after these, for every \<open>m\<close>.
\<close>

theorem DirReader_read_pass:
  assumes "DirReader_new w inp False k L = Inr r"
  shows "k < length (decodable w inp (listing w inp)) \<and>
         sorted (listing w inp) \<and>
         length (pass_spec w inp k L) = min L (length (decodable w inp (listing w inp)) - k) \<and>
         (\<exists>r'. reads w m (Dir r) =
                 Inr (map Some (take m (pass_spec w inp k L)) @
                      replicate (m - length (pass_spec w inp k L)) None, Dir r'))"
proof -
  note nr = DirReader_new_result [OF assms]
  let ?imgs = "decodable w inp (listing w inp)"
  have X: "take (readLengthLimit r - nextImgId r)
             (decodable w (input r) (drop (fileId r) (names r))) = pass_spec w inp k L"
    using nr by (simp add: pass_spec_def Let_def min_def)
  have nl: "\<not> loop r" using nr by simp
  have srt: "sorted (listing w inp)" by (simp add: listing_def split: option.splits)
  have len: "length (pass_spec w inp k L) = min L (length ?imgs - k)"
    by (simp add: pass_spec_def Let_def)
  from Dir_reads_nonloop [OF nl, of w m, unfolded X] nr(8) srt len show ?thesis by blast
qed

theorem DirReader_read_pass_witness:
  "DirReader_new demo_world ''pics'' False 1 3 =
     Inr \<lparr>loop = False, names = [''a.png'', ''b.txt'', ''c.png'', ''d.png''],
          fileId = 2, nextImgId = 0, initialImageId = 1, readLengthLimit = 3, input = ''pics''\<rparr> \<and>
   decodable demo_world ''pics'' (listing demo_world ''pics'') = [10, 30, 40] \<and>
   pass_spec demo_world ''pics'' 1 3 = [30, 40] \<and>
   reads demo_world 5
     (Dir \<lparr>loop = False, names = [''a.png'', ''b.txt'', ''c.png'', ''d.png''],
          fileId = 2, nextImgId = 0, initialImageId = 1, readLengthLimit = 3, input = ''pics''\<rparr>) =
     Inr ([Some 30, Some 40, None, None, None],
          Dir \<lparr>loop = False, names = [''a.png'', ''b.txt'', ''c.png'', ''d.png''],
          fileId = 4, nextImgId = 2, initialImageId = 1, readLengthLimit = 3, input = ''pics''\<rparr>)"
proof -
  let ?r = "\<lparr>loop = False, names = [''a.png'', ''b.txt'', ''c.png'', ''d.png''],
          fileId = 2, nextImgId = 0, initialImageId = 1, readLengthLimit = 3, input = ''pics''\<rparr>"
  have new: "DirReader_new demo_world ''pics'' False 1 3 = Inr ?r"
    by (simp add: DirReader_new_def demo_world_def DirReader_path_def)
  have ls: "listing demo_world ''pics'' = [''a.png'', ''b.txt'', ''c.png'', ''d.png'']"
    by (simp add: listing_def demo_world_def)
  have imgs: "decodable demo_world ''pics'' (listing demo_world ''pics'') = [10, 30, 40]"
    unfolding ls by (simp add: decodable_def demo_world_def)
  have ps: "pass_spec demo_world ''pics'' 1 3 = [30, 40]"
    by (simp add: pass_spec_def imgs)
  from DirReader_read_pass [OF new, of 5] obtain r' where
    "reads demo_world 5 (Dir ?r) = Inr ([Some 30, Some 40, None, None, None], Dir r')"
    unfolding ps by (auto simp: numeral_eq_Suc)
  moreover have "reads demo_world 5 (Dir ?r) = Inr ([Some 30, Some 40, None, None, None],
          Dir \<lparr>loop = False, names = [''a.png'', ''b.txt'', ''c.png'', ''d.png''],
          fileId = 4, nextImgId = 2, initialImageId = 1, readLengthLimit = 3, input = ''pics''\<rparr>)"
    by (simp add: numeral_eq_Suc DirReader_read_def demo_world_def DirReader_path_def)
  ultimately show ?thesis using new imgs ps by simp
qed


lemma restart_static:
  "DirReader_read_restart w r j = (res, r') \<Longrightarrow>
   r' = r\<lparr>fileId := fileId r', nextImgId := nextImgId r'\<rparr>"
proof (induction w r j arbitrary: res r' rule: DirReader_read_restart.induct)
  case (1 w r j)
  let ?r1 = "r\<lparr>fileId := fileId r + 1\<rparr>"
  show ?case
  proof (cases "fileId r < length (names r)")
    case False
    with "1.prems" show ?thesis by simp
  next
    case lt: True
    show ?thesis
    proof (cases "imread w (DirReader_path r)")
      case None
      with lt "1.prems" have rec: "DirReader_read_restart w ?r1 j = (res, r')" by auto
      from "1.IH"(1) [OF lt refl refl None rec]
      have "r' = ?r1\<lparr>fileId := fileId r', nextImgId := nextImgId r'\<rparr>" .
      then show ?thesis by (cases r) simp
    next
      case (Some d)
      show ?thesis
      proof (cases "initialImageId r \<le> j")
        case True
        with lt Some "1.prems" have "r' = ?r1\<lparr>nextImgId := 1\<rparr>" by auto
        then show ?thesis by simp
      next
        case False
        with lt Some "1.prems" have rec: "DirReader_read_restart w ?r1 (j + 1) = (res, r')" by auto
        have nle: "\<not> initialImageId ?r1 \<le> j + 1 - 1" using False by simp
        from "1.IH"(2) [OF lt refl refl Some nle rec]
        have "r' = ?r1\<lparr>fileId := fileId r', nextImgId := nextImgId r'\<rparr>" .
        then show ?thesis by (cases r) simp
      qed
    qed
  qed
qed

lemma DirReader_read_static:
  assumes "DirReader_read w r = (res, r')"
  shows "r' = r\<lparr>fileId := fileId r', nextImgId := nextImgId r'\<rparr>"
proof -
  obtain res1 r1 where sc: "DirReader_read_scan w r = (res1, r1)"
    by (cases "DirReader_read_scan w r")
  from scan_result [OF sc] have eq: "r1 = r\<lparr>fileId := fileId r1, nextImgId := nextImgId r1\<rparr>"
    by simp
  show ?thesis
  proof (cases "res1 = None \<and> loop r1")
    case False
    with assms sc have "r' = r1" by (auto simp: DirReader_read_def split: option.splits)
    with eq show ?thesis by simp
  next
    case True
    with assms sc have "DirReader_read_restart w (r1\<lparr>fileId := 0\<rparr>) 0 = (res, r')"
      by (auto simp: DirReader_read_def)
    from restart_static [OF this]
    have "r' = r1\<lparr>fileId := fileId r', nextImgId := nextImgId r'\<rparr>" by simp
    with eq show ?thesis by (cases r) (metis DirReader.update_convs(2,3))
  qed
qed

lemma Dir_reads_static:
  "reads w n (Dir r) = Inr (fs, rd) \<Longrightarrow>
   \<exists>r'. rd = Dir r' \<and> r' = r\<lparr>fileId := fileId r', nextImgId := nextImgId r'\<rparr>"
proof (induction n arbitrary: r fs)
  case 0
  then have "rd = Dir r" by simp
  then show ?case by (intro exI [of _ r]) simp
next
  case (Suc n)
  obtain res r1 where rd1: "DirReader_read w r = (res, r1)" by (cases "DirReader_read w r")
  note e1 = DirReader_read_static [OF rd1]
  from Suc.prems rd1 obtain fs1 where "reads w n (Dir r1) = Inr (fs1, rd)"
    by (auto split: sum.splits prod.splits)
  from Suc.IH [OF this] obtain r' where r': "rd = Dir r'"
    and e2: "r' = r1\<lparr>fileId := fileId r', nextImgId := nextImgId r'\<rparr>" by blast
  from e1 e2 have "r' = r\<lparr>fileId := fileId r', nextImgId := nextImgId r'\<rparr>"
    by (cases r) (metis DirReader.update_convs(2,3))
  with r' show ?case by blast
qed





lemma DirReader_exhausted_read:
  assumes new: "DirReader_new w inp True k L = Inr r0"
    and run: "reads w n (Dir r0) = Inr (fs, Dir r)"
    and ex: "L \<le> nextImgId r \<or> decodable w inp (drop (fileId r) (listing w inp)) = []"
  shows "k < length (decodable w inp (listing w inp)) \<and>
         (\<exists>r'. DirReader_read w r = (Some (decodable w inp (listing w inp) ! k), r') \<and>
               nextImgId r' = 1 \<and>
               fileId r' \<le> length (listing w inp) \<and>
               decodable w inp (take (fileId r') (listing w inp)) =
                 take (Suc k) (decodable w inp (listing w inp)))"
proof -
  note nr = DirReader_new_result [OF new]
  let ?ns = "listing w inp"
  let ?imgs = "decodable w inp ?ns"
  from Dir_reads_static [OF run]
  have eq: "r = r0\<lparr>fileId := fileId r, nextImgId := nextImgId r\<rparr>" by simp
  have st: "loop r = True" "names r = ?ns" "input r = inp" "readLengthLimit r = L"
    "initialImageId r = k"
    using arg_cong [OF eq, of loop] arg_cong [OF eq, of names] arg_cong [OF eq, of input]
      arg_cong [OF eq, of readLengthLimit] arg_cong [OF eq, of initialImageId] nr by simp_all
  obtain res1 r1 where sc: "DirReader_read_scan w r = (res1, r1)"
    by (cases "DirReader_read_scan w r")
  note sr = scan_result [OF sc, unfolded st]
  have none: "res1 = None"
  proof (cases res1)
    case (Some d)
    with sr ex show ?thesis by auto
  qed simp
  from sr have eq1: "r1 = r\<lparr>fileId := fileId r1, nextImgId := nextImgId r1\<rparr>" by simp
  have st1: "loop r1 = True" "names r1 = ?ns" "input r1 = inp" "initialImageId r1 = k"
    using arg_cong [OF eq1, of loop] arg_cong [OF eq1, of names] arg_cong [OF eq1, of input]
      arg_cong [OF eq1, of initialImageId] st by simp_all
  obtain res r' where rs: "DirReader_read_restart w (r1\<lparr>fileId := 0\<rparr>) 0 = (res, r')"
    by (cases "DirReader_read_restart w (r1\<lparr>fileId := 0\<rparr>) 0")
  have rd: "DirReader_read w r = (res, r')"
    using sc none st1 rs by (simp add: DirReader_read_def)
  have "initialImageId (r1\<lparr>fileId := 0\<rparr>) - 0
        < length (decodable w (input (r1\<lparr>fileId := 0\<rparr>))
                   (drop (fileId (r1\<lparr>fileId := 0\<rparr>)) (names (r1\<lparr>fileId := 0\<rparr>))))"
    using st1 nr(8) by simp
  from restart_result [OF rs _ this]
  have res: "res = Some (?imgs ! k)"
    and eq': "r' = r1\<lparr>fileId := fileId r', nextImgId := 1\<rparr>"
    and le: "fileId r' \<le> length ?ns"
    and dr: "decodable w inp (drop (fileId r') ?ns) = drop (Suc k) ?imgs"
    using st1 by simp_all
  have c: "nextImgId r' = 1" using arg_cong [OF eq', of nextImgId] by simp
  have "decodable w inp (take (fileId r') ?ns) @ decodable w inp (drop (fileId r') ?ns) = ?imgs"
    by (simp add: decodable_append [symmetric])
  then have "decodable w inp (take (fileId r') ?ns) @ drop (Suc k) ?imgs =
             take (Suc k) ?imgs @ drop (Suc k) ?imgs"
    by (simp only: dr append_take_drop_id)
  then have tk: "decodable w inp (take (fileId r') ?ns) = take (Suc k) ?imgs"
    by (simp only: append_same_eq)
  from rd res c le tk nr(8) show ?thesis by blast
qed


text \<open>
  C6. For a \<^verbatim>\<open>DirReader\<close> constructed with \<^verbatim>\<open>loop == true\<close> and
  \<^verbatim>\<open>initialImageId = k\<close>, in any state that \<^verbatim>\<open>read()\<close> calls lead to: when the pass is
  exhausted (the counter has reached the limit, or no decodable image is left from the
  cursor on), the next \<^verbatim>\<open>read()\<close> returns the \<open>k\<close>-th decodable image of the sorted
  listing, leaves the counter at 1, and leaves the cursor behind exactly the first
  \<open>k + 1\<close> decodable images, the undecodable entries between them skipped.
\<close>

theorem DirReader_loop_restart:
  assumes new: "DirReader_new w inp True k L = Inr r0"
    and run: "reads w n (Dir r0) = Inr (fs, Dir r)"
    and ex: "L \<le> nextImgId r \<or> decodable w inp (drop (fileId r) (listing w inp)) = []"
  shows "k < length (decodable w inp (listing w inp)) \<and>
         (\<exists>r'. DirReader_read w r = (Some (decodable w inp (listing w inp) ! k), r') \<and>
               nextImgId r' = 1 \<and>
               fileId r' \<le> length (listing w inp) \<and>
               decodable w inp (take (fileId r') (listing w inp)) =
                 take (Suc k) (decodable w inp (listing w inp)))"
  using new run ex by (rule DirReader_exhausted_read)

theorem DirReader_loop_restart_witness:
  "DirReader_new demo_world ''pics'' True 1 3 =
     Inr \<lparr>loop = True, names = [''a.png'', ''b.txt'', ''c.png'', ''d.png''],
          fileId = 2, nextImgId = 0, initialImageId = 1, readLengthLimit = 3, input = ''pics''\<rparr> \<and>
   reads demo_world 2
     (Dir \<lparr>loop = True, names = [''a.png'', ''b.txt'', ''c.png'', ''d.png''],
          fileId = 2, nextImgId = 0, initialImageId = 1, readLengthLimit = 3, input = ''pics''\<rparr>) =
     Inr ([Some 30, Some 40],
          Dir \<lparr>loop = True, names = [''a.png'', ''b.txt'', ''c.png'', ''d.png''],
          fileId = 4, nextImgId = 2, initialImageId = 1, readLengthLimit = 3, input = ''pics''\<rparr>) \<and>
   DirReader_read demo_world
     \<lparr>loop = True, names = [''a.png'', ''b.txt'', ''c.png'', ''d.png''],
      fileId = 4, nextImgId = 2, initialImageId = 1, readLengthLimit = 3, input = ''pics''\<rparr> =
     (Some 30,
      \<lparr>loop = True, names = [''a.png'', ''b.txt'', ''c.png'', ''d.png''],
       fileId = 3, nextImgId = 1, initialImageId = 1, readLengthLimit = 3, input = ''pics''\<rparr>)"
proof -
  let ?start = "\<lparr>loop = True, names = [''a.png'', ''b.txt'', ''c.png'', ''d.png''],
          fileId = 2, nextImgId = 0, initialImageId = 1, readLengthLimit = 3, input = ''pics''\<rparr>"
  let ?spent = "\<lparr>loop = True, names = [''a.png'', ''b.txt'', ''c.png'', ''d.png''],
          fileId = 4, nextImgId = 2, initialImageId = 1, readLengthLimit = 3, input = ''pics''\<rparr>"
  have new: "DirReader_new demo_world ''pics'' True 1 3 = Inr ?start"
    by (simp add: DirReader_new_def demo_world_def DirReader_path_def)
  have run: "reads demo_world 2 (Dir ?start) = Inr ([Some 30, Some 40], Dir ?spent)"
    by (simp add: numeral_eq_Suc DirReader_read_def demo_world_def DirReader_path_def)
  have ls: "listing demo_world ''pics'' = [''a.png'', ''b.txt'', ''c.png'', ''d.png'']"
    by (simp add: listing_def demo_world_def)
  have ex: "3 \<le> nextImgId ?spent \<or>
            decodable demo_world ''pics'' (drop (fileId ?spent) (listing demo_world ''pics'')) = []"
    unfolding ls by (simp add: decodable_def)
  have imgs: "decodable demo_world ''pics'' (listing demo_world ''pics'') = [10, 30, 40]"
    unfolding ls by (simp add: decodable_def demo_world_def)
  from DirReader_loop_restart [OF new run ex] obtain r' where
    rd: "DirReader_read demo_world ?spent = (Some 30, r')" and "nextImgId r' = 1"
    unfolding imgs by auto
  have "DirReader_read demo_world ?spent = (Some 30,
      \<lparr>loop = True, names = [''a.png'', ''b.txt'', ''c.png'', ''d.png''],
       fileId = 3, nextImgId = 1, initialImageId = 1, readLengthLimit = 3, input = ''pics''\<rparr>)"
    by (simp add: DirReader_read_def demo_world_def DirReader_path_def)
  with rd new run show ?thesis by simp
qed

subsection \<open>\<^verbatim>\<open>VideoCapWrapper\<close>\<close>

lemma VideoCapWrapper_new_result:
  assumes "VideoCapWrapper_new w inp lp k L = Inr r"
  shows "loop r = lp" "nextImgId_vid r = 0" "initialImageId_vid r = real k"
    "readLengthLimit_vid r = L"
  using assms
  by (auto simp: VideoCapWrapper_new_def split: option.splits prod.splits if_splits)

lemma VideoCapWrapper_read_static:
  assumes "VideoCapWrapper_read w r = (res, r')"
  shows "loop r' = loop r" "initialImageId_vid r' = initialImageId_vid r"
    "readLengthLimit_vid r' = readLengthLimit_vid r"
  using assms
  by (auto simp: VideoCapWrapper_read_def split: prod.splits if_splits)

lemma VideoCapWrapper_read_counter:
  assumes "VideoCapWrapper_read w r = (res, r')" and "0 < readLengthLimit_vid r"
    and "nextImgId_vid r \<le> readLengthLimit_vid r"
  shows "nextImgId_vid r' \<le> readLengthLimit_vid r"
  using assms
  by (auto simp: VideoCapWrapper_read_def split: prod.splits if_splits)

lemma Video_reads_inv:
  "reads w n (VideoCap r) = Inr (fs, rd) \<Longrightarrow>
   \<exists>r'. rd = VideoCap r' \<and> loop r' = loop r \<and>
        initialImageId_vid r' = initialImageId_vid r \<and>
        readLengthLimit_vid r' = readLengthLimit_vid r \<and>
        (0 < readLengthLimit_vid r \<longrightarrow> nextImgId_vid r \<le> readLengthLimit_vid r \<longrightarrow>
           nextImgId_vid r' \<le> readLengthLimit_vid r)"
proof (induction n arbitrary: r fs)
  case 0
  then have "rd = VideoCap r" by simp
  then show ?case by (intro exI [of _ r]) simp
next
  case (Suc n)
  obtain res r1 where rd1: "VideoCapWrapper_read w r = (res, r1)"
    by (cases "VideoCapWrapper_read w r")
  note st = VideoCapWrapper_read_static [OF rd1]
  from Suc.prems rd1 obtain fs1 where "reads w n (VideoCap r1) = Inr (fs1, rd)"
    by (auto split: sum.splits prod.splits)
  from Suc.IH [OF this] obtain r' where all: "rd = VideoCap r' \<and> loop r' = loop r1 \<and>
    initialImageId_vid r' = initialImageId_vid r1 \<and>
    readLengthLimit_vid r' = readLengthLimit_vid r1 \<and>
    (0 < readLengthLimit_vid r1 \<longrightarrow> nextImgId_vid r1 \<le> readLengthLimit_vid r1 \<longrightarrow>
           nextImgId_vid r' \<le> readLengthLimit_vid r1)" ..
  then have r': "rd = VideoCap r'" "loop r' = loop r1"
    "initialImageId_vid r' = initialImageId_vid r1"
    "readLengthLimit_vid r' = readLengthLimit_vid r1"
    "0 < readLengthLimit_vid r1 \<longrightarrow> nextImgId_vid r1 \<le> readLengthLimit_vid r1 \<longrightarrow>
           nextImgId_vid r' \<le> readLengthLimit_vid r1"
    by simp_all
  have cnt: "0 < readLengthLimit_vid r \<longrightarrow> nextImgId_vid r \<le> readLengthLimit_vid r \<longrightarrow>
           nextImgId_vid r' \<le> readLengthLimit_vid r"
    using r'(5) st(3) VideoCapWrapper_read_counter [OF rd1] by simp
  show ?case
    using r'(1-4) st cnt by (intro exI [of _ r']) simp
qed

text \<open>
  C7 (amended). For a \<^verbatim>\<open>VideoCapWrapper\<close> constructed with \<^verbatim>\<open>loop == true\<close> and
  \<^verbatim>\<open>initialImageId = k\<close>, in any state that \<^verbatim>\<open>read()\<close> calls lead to, with the counter
  below the limit: when the decode of the next frame fails, the same call seeks to frame
  \<open>k\<close>. If the seek succeeds, the call returns the frame decoded there and leaves the
  counter at 1. If the seek fails, the call returns the empty frame and increments the
  counter.
\<close>

theorem VideoCapWrapper_read_decode_failure:
  assumes new: "VideoCapWrapper_new w inp True k L = Inr r0"
    and run: "reads w n (VideoCap r0) = Inr (fs, VideoCap r)"
    and below: "nextImgId_vid r < L"
    and fail: "cap_read w (cap_vid r) = (None, c1)"
  shows "VideoCapWrapper_read w r =
     (case cap_set w CAP_PROP_POS_FRAMES (real k) c1 of
        (True, c2) \<Rightarrow>
          (fst (cap_read w c2), r\<lparr>cap_vid := snd (cap_read w c2), nextImgId_vid := 1\<rparr>)
      | (False, c2) \<Rightarrow> (None, r\<lparr>cap_vid := c2, nextImgId_vid := nextImgId_vid r + 1\<rparr>))"
proof -
  note nr = VideoCapWrapper_new_result [OF new]
  from Video_reads_inv [OF run] nr
  have st: "loop r" "initialImageId_vid r = real k" "readLengthLimit_vid r = L"
    by simp_all
  obtain ok c2 where seek: "cap_set w CAP_PROP_POS_FRAMES (real k) c1 = (ok, c2)"
    by (cases "cap_set w CAP_PROP_POS_FRAMES (real k) c1")
  obtain i2 c3 where again: "cap_read w c2 = (i2, c3)"
    by (cases "cap_read w c2")
  show ?thesis
    using st below fail seek again
    by (cases ok) (simp_all add: VideoCapWrapper_read_def)
qed

theorem VideoCapWrapper_read_decode_failure_witness:
  "VideoCapWrapper_new demo_world ''clip.mp4'' True 1 5 =
     Inr \<lparr>loop = True, cap_vid = File [100, 101, 102, 103] 1, nextImgId_vid = 0,
          initialImageId_vid = 1, readLengthLimit_vid = 5\<rparr> \<and>
   reads demo_world 3
     (VideoCap \<lparr>loop = True, cap_vid = File [100, 101, 102, 103] 1, nextImgId_vid = 0,
          initialImageId_vid = 1, readLengthLimit_vid = 5\<rparr>) =
     Inr ([Some 101, Some 102, Some 103],
          VideoCap \<lparr>loop = True, cap_vid = File [100, 101, 102, 103] 4, nextImgId_vid = 3,
          initialImageId_vid = 1, readLengthLimit_vid = 5\<rparr>) \<and>
   cap_read demo_world (File [100, 101, 102, 103] 4) = (None, File [100, 101, 102, 103] 4) \<and>
   VideoCapWrapper_read demo_world
     \<lparr>loop = True, cap_vid = File [100, 101, 102, 103] 4, nextImgId_vid = 3,
      initialImageId_vid = 1, readLengthLimit_vid = 5\<rparr> =
     (Some 101,
      \<lparr>loop = True, cap_vid = File [100, 101, 102, 103] 2, nextImgId_vid = 1,
       initialImageId_vid = 1, readLengthLimit_vid = 5\<rparr>)"
proof -
  let ?a = "\<lparr>loop = True, cap_vid = File [100, 101, 102, 103] 1, nextImgId_vid = 0,
          initialImageId_vid = 1, readLengthLimit_vid = 5\<rparr>"
  let ?b = "\<lparr>loop = True, cap_vid = File [100, 101, 102, 103] 4, nextImgId_vid = 3,
          initialImageId_vid = 1, readLengthLimit_vid = 5\<rparr>"
  have new: "VideoCapWrapper_new demo_world ''clip.mp4'' True 1 5 = Inr ?a"
    by (simp add: VideoCapWrapper_new_def demo_world_def)
  have run: "reads demo_world 3 (VideoCap ?a) = Inr ([Some 101, Some 102, Some 103], VideoCap ?b)"
    by (simp add: numeral_eq_Suc VideoCapWrapper_read_def demo_world_def)
  have below: "nextImgId_vid ?b < 5" by simp
  have fail: "cap_read demo_world (cap_vid ?b) = (None, File [100, 101, 102, 103] 4)"
    by (simp add: demo_world_def)
  have seek: "cap_set demo_world CAP_PROP_POS_FRAMES (real 1) (File [100, 101, 102, 103] 4) =
      (True, File [100, 101, 102, 103] 1)"
    by (simp add: demo_world_def)
  have again: "cap_read demo_world (File [100, 101, 102, 103] 1) = (Some 101, File [100, 101, 102, 103] 2)"
    by (simp add: demo_world_def)
  show ?thesis
    using VideoCapWrapper_read_decode_failure [OF new run below fail] new run fail seek again by simp
qed

text \<open>
  The claim C7 as it is written fails on a stream that cannot seek back: the decode fails
  in the second call, the seek to the start fails too, and the calls return the empty frame
  with the counter at 2 and then 3, not at 1.
\<close>

theorem VideoCapWrapper_seek_fails_counterexample:
  "VideoCapWrapper_new demo_world ''pipe'' True 0 5 =
     Inr \<lparr>loop = True, cap_vid = Stream [100] 0, nextImgId_vid = 0,
          initialImageId_vid = 0, readLengthLimit_vid = 5\<rparr> \<and>
   reads demo_world 3
     (VideoCap \<lparr>loop = True, cap_vid = Stream [100] 0, nextImgId_vid = 0,
          initialImageId_vid = 0, readLengthLimit_vid = 5\<rparr>) =
     Inr ([Some 100, None, None],
          VideoCap \<lparr>loop = True, cap_vid = Stream [100] 1, nextImgId_vid = 3,
          initialImageId_vid = 0, readLengthLimit_vid = 5\<rparr>)"
  by (simp add: VideoCapWrapper_new_def numeral_eq_Suc VideoCapWrapper_read_def demo_world_def)

subsection \<open>\<^verbatim>\<open>CameraCapWrapper\<close>\<close>

text \<open>
  C8. In \<^verbatim>\<open>CameraCapWrapper::read\<close>, below the limit a capture that fails throws
  \<^verbatim>\<open>std::runtime_error\<close>: no second capture is tried and no empty frame is returned. At
  the limit the call returns the empty frame and leaves the object as it was, the capture
  session included, whatever the world is: no capture was attempted.
\<close>

theorem CameraCapWrapper_read_fatal:
  "(nextImgId_cam r < readLengthLimit_cam r \<and> fst (cap_read w (cap_cam r)) = None \<longrightarrow>
      CameraCapWrapper_read w r = Inl (RuntimeError ''The image can't be captured from the camera'')) \<and>
   (readLengthLimit_cam r \<le> nextImgId_cam r \<longrightarrow> CameraCapWrapper_read w r = Inr (None, r))"
  by (auto simp: CameraCapWrapper_read_def split: prod.splits)


theorem CameraCapWrapper_read_fatal_witness:
  "CameraCapWrapper_read demo_world
     \<lparr>loop = False, cap_cam = File [200] 1, nextImgId_cam = 1, initialImageId_cam = 0, readLengthLimit_cam = 3\<rparr>
     = Inl (RuntimeError ''The image can't be captured from the camera'') \<and>
   CameraCapWrapper_read demo_world
     \<lparr>loop = False, cap_cam = File [200] 1, nextImgId_cam = 1, initialImageId_cam = 0, readLengthLimit_cam = 1\<rparr>
     = Inr (None, \<lparr>loop = False, cap_cam = File [200] 1, nextImgId_cam = 1, initialImageId_cam = 0, readLengthLimit_cam = 1\<rparr>)"
  using CameraCapWrapper_read_fatal [of "\<lparr>loop = False, cap_cam = File [200] 1, nextImgId_cam = 1, initialImageId_cam = 0, readLengthLimit_cam = 3\<rparr>" demo_world]
        CameraCapWrapper_read_fatal [of "\<lparr>loop = False, cap_cam = File [200] 1, nextImgId_cam = 1, initialImageId_cam = 0, readLengthLimit_cam = 1\<rparr>" demo_world]
  by (simp add: demo_world_def)

lemma CameraCapWrapper_new_result:
  assumes "CameraCapWrapper_new w inp lp k L res = Inr r"
  shows "loop r = lp" "nextImgId_cam r = 0" "initialImageId_cam r = real k"
    "readLengthLimit_cam r = (if lp then SIZE_MAX else L)"
  using assms
  by (auto simp: CameraCapWrapper_new_def Let_def split: option.splits sum.splits stoi_error.splits)

lemma CameraCapWrapper_read_result:
  assumes "CameraCapWrapper_read w r = Inr (res, r')"
  shows "loop r' = loop r" "initialImageId_cam r' = initialImageId_cam r"
    "readLengthLimit_cam r' = readLengthLimit_cam r"
    "nextImgId_cam r \<le> readLengthLimit_cam r \<longrightarrow> nextImgId_cam r' \<le> readLengthLimit_cam r"
    "nextImgId_cam r' \<le> nextImgId_cam r + 1"
    "nextImgId_cam r < readLengthLimit_cam r \<longrightarrow> res \<noteq> None \<and> nextImgId_cam r' = nextImgId_cam r + 1"
  using assms
  by (auto simp: CameraCapWrapper_read_def split: prod.splits if_splits)

lemma Camera_reads_inv:
  "reads w n (CameraCap r) = Inr (fs, rd) \<Longrightarrow>
   \<exists>r'. rd = CameraCap r' \<and> loop r' = loop r \<and>
        initialImageId_cam r' = initialImageId_cam r \<and>
        readLengthLimit_cam r' = readLengthLimit_cam r \<and>
        (nextImgId_cam r \<le> readLengthLimit_cam r \<longrightarrow> nextImgId_cam r' \<le> readLengthLimit_cam r) \<and>
        nextImgId_cam r' \<le> nextImgId_cam r + n \<and>
        (nextImgId_cam r + n \<le> readLengthLimit_cam r \<longrightarrow>
           None \<notin> set fs \<and> nextImgId_cam r' = nextImgId_cam r + n)"
proof (induction n arbitrary: r fs)
  case 0
  then have "rd = CameraCap r" "fs = []" by simp_all
  then show ?case by (intro exI [of _ r]) simp
next
  case (Suc n)
  from Suc.prems obtain res r1 fs1 where rd1: "CameraCapWrapper_read w r = Inr (res, r1)"
    and rest: "reads w n (CameraCap r1) = Inr (fs1, rd)" and fs: "fs = res # fs1"
    by (auto split: sum.splits prod.splits)
  note st = CameraCapWrapper_read_result [OF rd1]
  from Suc.IH [OF rest] obtain r' where all: "rd = CameraCap r' \<and> loop r' = loop r1 \<and>
    initialImageId_cam r' = initialImageId_cam r1 \<and>
    readLengthLimit_cam r' = readLengthLimit_cam r1 \<and>
    (nextImgId_cam r1 \<le> readLengthLimit_cam r1 \<longrightarrow> nextImgId_cam r' \<le> readLengthLimit_cam r1) \<and>
    nextImgId_cam r' \<le> nextImgId_cam r1 + n \<and>
    (nextImgId_cam r1 + n \<le> readLengthLimit_cam r1 \<longrightarrow>
           None \<notin> set fs1 \<and> nextImgId_cam r' = nextImgId_cam r1 + n)" ..
  then have r': "rd = CameraCap r'" "loop r' = loop r1"
    "initialImageId_cam r' = initialImageId_cam r1"
    "readLengthLimit_cam r' = readLengthLimit_cam r1"
    "nextImgId_cam r1 \<le> readLengthLimit_cam r1 \<longrightarrow> nextImgId_cam r' \<le> readLengthLimit_cam r1"
    "nextImgId_cam r' \<le> nextImgId_cam r1 + n"
    "nextImgId_cam r1 + n \<le> readLengthLimit_cam r1 \<longrightarrow>
           None \<notin> set fs1 \<and> nextImgId_cam r' = nextImgId_cam r1 + n"
    by simp_all
  have a: "nextImgId_cam r \<le> readLengthLimit_cam r \<longrightarrow> nextImgId_cam r' \<le> readLengthLimit_cam r"
    using r'(5) st by simp
  have b: "nextImgId_cam r' \<le> nextImgId_cam r + Suc n"
    using r'(6) st(5) by simp
  have c: "nextImgId_cam r + Suc n \<le> readLengthLimit_cam r \<longrightarrow>
           None \<notin> set fs \<and> nextImgId_cam r' = nextImgId_cam r + Suc n"
    using r'(7) st(3,6) fs by auto
  show ?case
    using r'(1-4) st(1-3) a b c by (intro exI [of _ r']) simp
qed


text \<open>
  C10 (amended). A \<^verbatim>\<open>CameraCapWrapper\<close> constructed with \<^verbatim>\<open>loop == true\<close> has the limit
  \<^verbatim>\<open>std::numeric_limits<size_t>::max()\<close>. After \<open>n\<close> calls of \<^verbatim>\<open>read()\<close> that did not
  throw, with \<open>n\<close> below that maximum, none of the frames returned was empty, and the next
  call returns a captured frame or throws the capture error.
\<close>

theorem CameraCapWrapper_loop_not_empty:
  assumes new: "CameraCapWrapper_new w inp True k L res = Inr r0"
    and run: "reads w n (CameraCap r0) = Inr (fs, rd)"
    and few: "n < SIZE_MAX"
  shows "readLengthLimit_cam r0 = SIZE_MAX \<and> None \<notin> set fs \<and>
         (read w rd = Inl (RuntimeError ''The image can't be captured from the camera'') \<or>
          (\<exists>d rd'. read w rd = Inr (Some d, rd')))"
proof -
  note nr = CameraCapWrapper_new_result [OF new]
  from Camera_reads_inv [OF run] obtain r where all: "rd = CameraCap r \<and> loop r = loop r0 \<and>
        initialImageId_cam r = initialImageId_cam r0 \<and>
        readLengthLimit_cam r = readLengthLimit_cam r0 \<and>
        (nextImgId_cam r0 \<le> readLengthLimit_cam r0 \<longrightarrow> nextImgId_cam r \<le> readLengthLimit_cam r0) \<and>
        nextImgId_cam r \<le> nextImgId_cam r0 + n \<and>
        (nextImgId_cam r0 + n \<le> readLengthLimit_cam r0 \<longrightarrow>
           None \<notin> set fs \<and> nextImgId_cam r = nextImgId_cam r0 + n)" ..
  with nr few have rd: "rd = CameraCap r" and lim: "readLengthLimit_cam r = SIZE_MAX"
    and cnt: "nextImgId_cam r < SIZE_MAX" and fs: "None \<notin> set fs"
    by simp_all
  obtain i c1 where cr: "cap_read w (cap_cam r) = (i, c1)" by (cases "cap_read w (cap_cam r)")
  have "read w rd = Inl (RuntimeError ''The image can't be captured from the camera'') \<or>
          (\<exists>d rd'. read w rd = Inr (Some d, rd'))"
  proof (cases i)
    case None
    with rd lim cnt cr show ?thesis by (simp add: CameraCapWrapper_read_def)
  next
    case (Some d)
    with rd lim cnt cr show ?thesis by (simp add: CameraCapWrapper_read_def)
  qed
  with nr fs show ?thesis by simp
qed


theorem CameraCapWrapper_loop_not_empty_witness:
  "CameraCapWrapper_new demo_world ''1'' True 0 3 \<lparr>width = 1280, height = 720\<rparr> =
     Inr \<lparr>loop = True, cap_cam = File [200] 0, nextImgId_cam = 0,
          initialImageId_cam = 0, readLengthLimit_cam = SIZE_MAX\<rparr> \<and>
   reads demo_world 1
     (CameraCap \<lparr>loop = True, cap_cam = File [200] 0, nextImgId_cam = 0,
          initialImageId_cam = 0, readLengthLimit_cam = SIZE_MAX\<rparr>) =
     Inr ([Some 200],
          CameraCap \<lparr>loop = True, cap_cam = File [200] 1, nextImgId_cam = 1,
          initialImageId_cam = 0, readLengthLimit_cam = SIZE_MAX\<rparr>) \<and>
   read demo_world
     (CameraCap \<lparr>loop = True, cap_cam = File [200] 1, nextImgId_cam = 1,
          initialImageId_cam = 0, readLengthLimit_cam = SIZE_MAX\<rparr>) =
     Inl (RuntimeError ''The image can't be captured from the camera'')"
proof -
  let ?a = "\<lparr>loop = True, cap_cam = File [200] 0, nextImgId_cam = 0,
          initialImageId_cam = 0, readLengthLimit_cam = SIZE_MAX\<rparr>"
  let ?b = "\<lparr>loop = True, cap_cam = File [200] 1, nextImgId_cam = 1,
          initialImageId_cam = 0, readLengthLimit_cam = SIZE_MAX\<rparr>"
  have new: "CameraCapWrapper_new demo_world ''1'' True 0 3 \<lparr>width = 1280, height = 720\<rparr> = Inr ?a"
    by (simp add: CameraCapWrapper_new_def demo_world_def)
  have run: "reads demo_world 1 (CameraCap ?a) = Inr ([Some 200], CameraCap ?b)"
    by (simp add: CameraCapWrapper_read_def demo_world_def SIZE_MAX_def)
  have few: "1 < SIZE_MAX" by (simp add: SIZE_MAX_def)
  have "\<not> (\<exists>d rd'. read demo_world (CameraCap ?b) = Inr (Some d, rd'))"
    by (simp add: CameraCapWrapper_read_def demo_world_def SIZE_MAX_def)
  with CameraCapWrapper_loop_not_empty [OF new run few] new run show ?thesis by simp
qed

lemma Device_reads:
  "cap_cam r = Device p \<Longrightarrow> nextImgId_cam r + n \<le> readLengthLimit_cam r \<Longrightarrow>
   reads demo_world n (CameraCap r) =
     Inr (map Some [p..<p + n],
          CameraCap (r\<lparr>cap_cam := Device (p + n), nextImgId_cam := nextImgId_cam r + n\<rparr>))"
proof (induction n arbitrary: r p)
  case 0
  then show ?case by simp
next
  case (Suc n)
  let ?r1 = "r\<lparr>cap_cam := Device (p + 1), nextImgId_cam := nextImgId_cam r + 1\<rparr>"
  have step: "read demo_world (CameraCap r) = Inr (Some p, CameraCap ?r1)"
    using Suc.prems by (simp add: CameraCapWrapper_read_def demo_world_def)
  have "reads demo_world n (CameraCap ?r1) =
     Inr (map Some [p + 1..<p + 1 + n],
          CameraCap (?r1\<lparr>cap_cam := Device (p + 1 + n), nextImgId_cam := nextImgId_cam ?r1 + n\<rparr>))"
    using Suc.prems by (intro Suc.IH) simp_all
  with step show ?case by (simp add: upt_conv_Cons)
qed

text \<open>
  The claim C10 as it is written fails after \<^verbatim>\<open>SIZE_MAX\<close> frames: the counter equals the
  limit, and the next \<^verbatim>\<open>read()\<close> of the looping camera returns the empty frame.
\<close>

theorem CameraCapWrapper_loop_empty_counterexample:
  "CameraCapWrapper_new demo_world ''0'' True 0 1 \<lparr>width = 1280, height = 720\<rparr> =
     Inr \<lparr>loop = True, cap_cam = Device 0, nextImgId_cam = 0,
          initialImageId_cam = 0, readLengthLimit_cam = SIZE_MAX\<rparr> \<and>
   reads demo_world SIZE_MAX
     (CameraCap \<lparr>loop = True, cap_cam = Device 0, nextImgId_cam = 0,
          initialImageId_cam = 0, readLengthLimit_cam = SIZE_MAX\<rparr>) =
     Inr (map Some [0..<SIZE_MAX],
          CameraCap \<lparr>loop = True, cap_cam = Device SIZE_MAX, nextImgId_cam = SIZE_MAX,
          initialImageId_cam = 0, readLengthLimit_cam = SIZE_MAX\<rparr>) \<and>
   read demo_world
     (CameraCap \<lparr>loop = True, cap_cam = Device SIZE_MAX, nextImgId_cam = SIZE_MAX,
          initialImageId_cam = 0, readLengthLimit_cam = SIZE_MAX\<rparr>) =
     Inr (None,
          CameraCap \<lparr>loop = True, cap_cam = Device SIZE_MAX, nextImgId_cam = SIZE_MAX,
          initialImageId_cam = 0, readLengthLimit_cam = SIZE_MAX\<rparr>)"
proof -
  let ?a = "\<lparr>loop = True, cap_cam = Device 0, nextImgId_cam = 0,
          initialImageId_cam = 0, readLengthLimit_cam = SIZE_MAX\<rparr>"
  have new: "CameraCapWrapper_new demo_world ''0'' True 0 1 \<lparr>width = 1280, height = 720\<rparr> = Inr ?a"
    by (simp add: CameraCapWrapper_new_def demo_world_def)
  have run: "reads demo_world SIZE_MAX (CameraCap ?a) =
     Inr (map Some [0..<0 + SIZE_MAX],
          CameraCap (?a\<lparr>cap_cam := Device (0 + SIZE_MAX), nextImgId_cam := nextImgId_cam ?a + SIZE_MAX\<rparr>))"
    by (rule Device_reads) simp_all
  have last: "read demo_world
     (CameraCap \<lparr>loop = True, cap_cam = Device SIZE_MAX, nextImgId_cam = SIZE_MAX,
          initialImageId_cam = 0, readLengthLimit_cam = SIZE_MAX\<rparr>) =
     Inr (None,
          CameraCap \<lparr>loop = True, cap_cam = Device SIZE_MAX, nextImgId_cam = SIZE_MAX,
          initialImageId_cam = 0, readLengthLimit_cam = SIZE_MAX\<rparr>)"
    by (simp add: CameraCapWrapper_read_def)
  from new run last show ?thesis by simp
qed

subsection \<open>The limit of a pass\<close>








end
